theory Spec2Isabelle
  imports Main "HOL-Library.Word" "HOL-Library.Multiset"
begin

section \<open>JavaScript strings\<close>

text \<open>
  A JavaScript string is a sequence of UTF-16 code units, and \<open>length\<close>, \<open>substring\<close>,
  \<open>split\<close>, \<open>trim\<close> and the regular expressions of the source (none has the \<open>u\<close> flag)
  all work on code units. A string is therefore a list of 16-bit words. \<open>js\<close> turns a HOL
  string literal into such a list. The names of the characters that CSV is made of stand
  for the same numbers in words of any length, code units or bytes.
\<close>

type_synonym jschar = "16 word"
type_synonym jsstring = "jschar list"

definition js :: "string \<Rightarrow> jsstring" where
  "js s = map of_char s"

abbreviation DQUOTE :: "'a::len word" where "DQUOTE \<equiv> 34"
abbreviation COMMA :: "'a::len word" where "COMMA \<equiv> 44"
abbreviation LF :: "'a::len word" where "LF \<equiv> 10"
abbreviation CR :: "'a::len word" where "CR \<equiv> 13"

text \<open>\<open>xs.join(sep)\<close> on an array of strings.\<close>

fun join :: "'a list \<Rightarrow> 'a list list \<Rightarrow> 'a list" where
  "join sep [] = []"
| "join sep [x] = x"
| "join sep (x # y # ys) = x @ sep @ join sep (y # ys)"

section \<open>CSV field escaping (\<open>escapeCSVField\<close>)\<close>

text \<open>
  \<^verbatim>\<open>
  function escapeCSVField(field) {
    if (field === null || field === undefined) return '';
    const str = String(field);
    if (/[",\n]/.test(str)) {
      return `"${str.replace(/"/g, '""')}"`;
    }
    return str;
  }
  \<close>
  The field is \<open>None\<close> for \<open>null\<close>/\<open>undefined\<close> and \<open>Some s\<close> for a string.
  \<open>/[",\n]/.test(str)\<close> asks whether some code unit of \<open>str\<close> is a double quote, a comma
  or a line feed; \<open>str.replace(/"/g, '""')\<close> doubles every double quote. The source's
  function is the one on strings of 16-bit code units; the definitions are written for
  words of any length, so that the same rule can be read on the bytes of the file.
\<close>

definition needsQuoting :: "'a::len word list \<Rightarrow> bool" where
  "needsQuoting str = list_ex (\<lambda>c. c = DQUOTE \<or> c = COMMA \<or> c = LF) str"

fun doubleQuotes :: "'a::len word list \<Rightarrow> 'a word list" where
  "doubleQuotes [] = []"
| "doubleQuotes (c # s) = (if c = DQUOTE then DQUOTE # DQUOTE # doubleQuotes s else c # doubleQuotes s)"

fun escapeCSVField :: "'a::len word list option \<Rightarrow> 'a word list" where
  "escapeCSVField None = []"
| "escapeCSVField (Some str) =
     (if needsQuoting str then DQUOTE # doubleQuotes str @ [DQUOTE] else str)"

subsection \<open>A standard CSV reader\<close>

text \<open>
  The reader of RFC 4180 files as the common libraries read them: fields are separated by
  commas; a record ends at a line feed, at a carriage return, or at a carriage return
  followed by a line feed, which is one line break; a field that starts with a double
  quote runs to the matching closing quote, a doubled quote inside it stands for one
  quote, and commas, line feeds and carriage returns inside it are data. Malformed input
  (an unterminated quoted field, a quote inside an unquoted field, text after a closing
  quote) gives \<open>None\<close>.

  The reader is a one-pass state machine: \<open>cur\<close> is the field read so far, \<open>row\<close> the
  fields of the current record, \<open>rows\<close> the finished records. In the state \<open>AfterCR\<close> a
  record has just been closed by a carriage return, and a line feed that follows belongs
  to the same line break.
\<close>

datatype csv_state = FieldStart | Unquoted | Quoted | QuoteSeen | AfterCR

fun csvRead :: "csv_state \<Rightarrow> 'a::len word list \<Rightarrow> 'a word list list \<Rightarrow> 'a word list list list
                \<Rightarrow> 'a word list \<Rightarrow> 'a word list list list option" where
  "csvRead FieldStart cur row rows [] = (if row = [] then Some rows else Some (rows @ [row @ [cur]]))"
| "csvRead Unquoted cur row rows [] = Some (rows @ [row @ [cur]])"
| "csvRead Quoted cur row rows [] = None"
| "csvRead QuoteSeen cur row rows [] = Some (rows @ [row @ [cur]])"
| "csvRead AfterCR cur row rows [] = Some rows"
| "csvRead FieldStart cur row rows (c # s) =
     (if c = DQUOTE then csvRead Quoted cur row rows s
      else if c = COMMA then csvRead FieldStart [] (row @ [cur]) rows s
      else if c = LF then csvRead FieldStart [] [] (rows @ [row @ [cur]]) s
      else if c = CR then csvRead AfterCR [] [] (rows @ [row @ [cur]]) s
      else csvRead Unquoted (cur @ [c]) row rows s)"
| "csvRead Unquoted cur row rows (c # s) =
     (if c = DQUOTE then None
      else if c = COMMA then csvRead FieldStart [] (row @ [cur]) rows s
      else if c = LF then csvRead FieldStart [] [] (rows @ [row @ [cur]]) s
      else if c = CR then csvRead AfterCR [] [] (rows @ [row @ [cur]]) s
      else csvRead Unquoted (cur @ [c]) row rows s)"
| "csvRead Quoted cur row rows (c # s) =
     (if c = DQUOTE then csvRead QuoteSeen cur row rows s
      else csvRead Quoted (cur @ [c]) row rows s)"
| "csvRead QuoteSeen cur row rows (c # s) =
     (if c = DQUOTE then csvRead Quoted (cur @ [c]) row rows s
      else if c = COMMA then csvRead FieldStart [] (row @ [cur]) rows s
      else if c = LF then csvRead FieldStart [] [] (rows @ [row @ [cur]]) s
      else if c = CR then csvRead AfterCR [] [] (rows @ [row @ [cur]]) s
      else None)"
| "csvRead AfterCR cur row rows (c # s) =
     (if c = LF then csvRead FieldStart [] [] rows s
      else if c = DQUOTE then csvRead Quoted [] [] rows s
      else if c = COMMA then csvRead FieldStart [] [[]] rows s
      else if c = CR then csvRead AfterCR [] [] (rows @ [[[]]]) s
      else csvRead Unquoted [c] [] rows s)"

definition csvParse :: "'a::len word list \<Rightarrow> 'a word list list list option" where
  "csvParse text = csvRead FieldStart [] [] [] text"

text \<open>
  In words of at least eight bits the four characters are different from each other.
\<close>

lemma special_characters:
  assumes "8 \<le> LENGTH('a::len)"
  shows "(COMMA :: 'a word) \<noteq> DQUOTE" "(LF :: 'a word) \<noteq> DQUOTE" "(LF :: 'a word) \<noteq> COMMA"
    "(CR :: 'a word) \<noteq> DQUOTE" "(CR :: 'a word) \<noteq> COMMA" "(CR :: 'a word) \<noteq> LF"
proof -
  have u: "unat (of_nat n :: 'a word) = n" if "n < 256" for n
  proof -
    have "(256::nat) = 2 ^ 8" by simp
    also have "\<dots> \<le> 2 ^ LENGTH('a)" using assms by (rule power_increasing) simp
    finally have "n < 2 ^ LENGTH('a)" using that by simp
    then show ?thesis by (simp add: unat_of_nat)
  qed
  have ne: "(of_nat m :: 'a word) \<noteq> of_nat n" if "m < 256" "n < 256" "m \<noteq> n" for m n
    using u [of m] u [of n] that by metis
  from ne [of 44 34] show "(COMMA :: 'a word) \<noteq> DQUOTE" by simp
  from ne [of 10 34] show "(LF :: 'a word) \<noteq> DQUOTE" by simp
  from ne [of 10 44] show "(LF :: 'a word) \<noteq> COMMA" by simp
  from ne [of 13 34] show "(CR :: 'a word) \<noteq> DQUOTE" by simp
  from ne [of 13 44] show "(CR :: 'a word) \<noteq> COMMA" by simp
  from ne [of 13 10] show "(CR :: 'a word) \<noteq> LF" by simp
qed


subsection \<open>Reading back what \<open>escapeCSVField\<close> wrote\<close>

lemma csvRead_quoted_body:
  "csvRead Quoted cur row rows (doubleQuotes s @ DQUOTE # rest)
     = csvRead QuoteSeen (cur @ s) row rows rest"
  by (induction s arbitrary: cur) simp_all

lemma csvRead_unquoted_body:
  "\<not> needsQuoting s \<Longrightarrow> CR \<notin> set s
     \<Longrightarrow> csvRead Unquoted cur row rows (s @ rest) = csvRead Unquoted (cur @ s) row rows rest"
  by (induction s arbitrary: cur) (simp_all add: needsQuoting_def)

lemma csvRead_unquoted_field:
  "\<not> needsQuoting s \<Longrightarrow> CR \<notin> set s \<Longrightarrow> s \<noteq> []
     \<Longrightarrow> csvRead FieldStart [] row rows (s @ rest) = csvRead Unquoted s row rows rest"
proof (cases s)
  case Nil
  assume "s \<noteq> []"
  with Nil show ?thesis by simp
next
  case (Cons c t)
  assume "\<not> needsQuoting s" "CR \<notin> set s"
  with Cons have c: "c \<noteq> DQUOTE" "c \<noteq> COMMA" "c \<noteq> LF" "c \<noteq> CR"
    and t: "\<not> needsQuoting t" "CR \<notin> set t"
    by (auto simp: needsQuoting_def)
  from c show ?thesis
    using csvRead_unquoted_body [OF t, of "[c]" row rows rest] by (simp add: Cons)
qed

text \<open>
  After an escaped field the reader is where it would be had it read the field itself:
  at the next comma it closes the field, at the next line feed the record.
\<close>

lemma csvRead_field_comma:
  fixes s :: "'a::len word list"
  assumes "8 \<le> LENGTH('a)" "CR \<notin> set s \<or> needsQuoting s"
  shows "csvRead FieldStart [] row rows (escapeCSVField (Some s) @ COMMA # rest)
     = csvRead FieldStart [] (row @ [s]) rows rest"
proof (cases "needsQuoting s")
  case True
  then show ?thesis
    using special_characters(1) [OF assms(1)] by (simp add: csvRead_quoted_body)
next
  case False
  with assms have cr: "CR \<notin> set s" by simp
  show ?thesis
  proof (cases "s = []")
    case True
    then show ?thesis using special_characters(1) [OF assms(1)] by simp
  next
    case ne: False
    from False have "escapeCSVField (Some s) = s" by simp
    then show ?thesis
      using csvRead_unquoted_field [OF False cr ne, of row rows "COMMA # rest"]
        special_characters(1) [OF assms(1)] by simp
  qed
qed

lemma csvRead_field_newline:
  fixes s :: "'a::len word list"
  assumes "8 \<le> LENGTH('a)" "CR \<notin> set s \<or> needsQuoting s"
  shows "csvRead FieldStart [] row rows (escapeCSVField (Some s) @ LF # rest)
     = csvRead FieldStart [] [] (rows @ [row @ [s]]) rest"
proof (cases "needsQuoting s")
  case True
  then show ?thesis
    using special_characters(2,3) [OF assms(1)] by (simp add: csvRead_quoted_body)
next
  case False
  with assms have cr: "CR \<notin> set s" by simp
  show ?thesis
  proof (cases "s = []")
    case True
    then show ?thesis using special_characters(2,3) [OF assms(1)] by simp
  next
    case ne: False
    from False have "escapeCSVField (Some s) = s" by simp
    then show ?thesis
      using csvRead_unquoted_field [OF False cr ne, of row rows "LF # rest"]
        special_characters(2,3) [OF assms(1)] by simp
  qed
qed

text \<open>At the end of the input the reader closes the field and the record as well.\<close>

lemma csvRead_field_end:
  assumes "CR \<notin> set s \<or> needsQuoting s" "s \<noteq> []"
  shows "csvRead FieldStart [] row rows (escapeCSVField (Some s)) = Some (rows @ [row @ [s]])"
proof (cases "needsQuoting s")
  case True
  then show ?thesis
    using csvRead_quoted_body [of "[]" row rows s "[]"] by simp
next
  case False
  with assms have cr: "CR \<notin> set s" by simp
  from False show ?thesis
    using csvRead_unquoted_field [OF False cr assms(2), of row rows "[]"] by simp
qed

text \<open>
  A record: the escaped fields joined by commas and ended by a line feed.
\<close>

definition csvLine :: "'a::len word list list \<Rightarrow> 'a word list" where
  "csvLine fields = join [COMMA] (map (\<lambda>f. escapeCSVField (Some f)) fields) @ [LF]"

lemma csvRead_record:
  fixes fs :: "'a::len word list list"
  assumes "8 \<le> LENGTH('a)"
  shows "fs \<noteq> [] \<Longrightarrow> \<forall>f \<in> set fs. CR \<notin> set f \<or> needsQuoting f \<Longrightarrow>
   csvRead FieldStart [] row rows (csvLine fs @ rest)
     = csvRead FieldStart [] [] (rows @ [row @ fs]) rest"
proof (induction fs arbitrary: row)
  case Nil
  then show ?case by simp
next
  case (Cons f fs)
  from Cons.prems have safe: "CR \<notin> set f \<or> needsQuoting f" by simp
  show ?case
  proof (cases fs)
    case Nil
    then show ?thesis
      using csvRead_field_newline [OF assms safe, of row rows rest] by (simp add: csvLine_def)
  next
    case c: (Cons g gs)
    have "csvLine (f # fs) @ rest = escapeCSVField (Some f) @ COMMA # (csvLine fs @ rest)"
      by (simp add: csvLine_def c del: escapeCSVField.simps)
    then have "csvRead FieldStart [] row rows (csvLine (f # fs) @ rest)
          = csvRead FieldStart [] (row @ [f]) rows (csvLine fs @ rest)"
      using csvRead_field_comma [OF assms safe, of row rows "csvLine fs @ rest"] by simp
    also have "\<dots> = csvRead FieldStart [] [] (rows @ [(row @ [f]) @ fs]) rest"
      using Cons.IH [of "row @ [f]"] Cons.prems c by simp
    finally show ?thesis by simp
  qed
qed

lemma csvRead_lines:
  fixes fss :: "'a::len word list list list"
  assumes "8 \<le> LENGTH('a)"
  shows "\<forall>fs \<in> set fss. fs \<noteq> [] \<and> (\<forall>f \<in> set fs. CR \<notin> set f \<or> needsQuoting f) \<Longrightarrow>
   csvRead FieldStart [] [] rows (concat (map csvLine fss)) = Some (rows @ fss)"
proof (induction fss arbitrary: rows)
  case Nil
  show ?case by simp
next
  case (Cons fs fss)
  from Cons.prems have fs: "fs \<noteq> []" "\<forall>f \<in> set fs. CR \<notin> set f \<or> needsQuoting f" by simp_all
  have "csvRead FieldStart [] [] rows (csvLine fs @ concat (map csvLine fss))
      = csvRead FieldStart [] [] (rows @ [fs]) (concat (map csvLine fss))"
    using csvRead_record [OF assms fs, of "[]" rows "concat (map csvLine fss)"] by simp
  with Cons.IH [of "rows @ [fs]"] Cons.prems show ?case by simp
qed


text \<open>
  C1 (amended). For every string field, \<open>escapeCSVField\<close> wraps the field in double quotes
  with the inner quotes doubled exactly when it contains a double quote, a comma or a line
  feed, and returns it unchanged otherwise. Read back by a standard CSV reader, the escaped
  field gives the original string whenever the field has no carriage return or is one
  that gets quoted: as a record ended by a line feed, the way the export writes it, and,
  for a field that is not empty, also on its own. It does so in particular for the
  specification's field \<open>a,"b"\nc\<close> (with a line feed before the \<open>c\<close>).
\<close>

theorem escapeCSVField_roundtrip:
  fixes s :: jsstring
  shows "escapeCSVField (Some s)
      = (if needsQuoting s then [DQUOTE] @ doubleQuotes s @ [DQUOTE] else s)
   \<and> needsQuoting s = (DQUOTE \<in> set s \<or> COMMA \<in> set s \<or> LF \<in> set s)
   \<and> doubleQuotes s = concat (map (\<lambda>c. if c = DQUOTE then [DQUOTE, DQUOTE] else [c]) s)
   \<and> (CR \<notin> set s \<or> needsQuoting s
        \<longrightarrow> csvParse (escapeCSVField (Some s) @ [LF]) = Some [[s]])
   \<and> ((CR \<notin> set s \<or> needsQuoting s) \<and> s \<noteq> []
        \<longrightarrow> csvParse (escapeCSVField (Some s)) = Some [[s]])
   \<and> csvParse (escapeCSVField (Some (js ''a,\"b\"\<newline>c'')) @ [LF])
        = Some [[js ''a,\"b\"\<newline>c'']]
   \<and> csvParse (escapeCSVField (Some (js ''a,\"b\"\<newline>c''))) = Some [[js ''a,\"b\"\<newline>c'']]"
proof -
  have q: "needsQuoting s = (DQUOTE \<in> set s \<or> COMMA \<in> set s \<or> LF \<in> set s)"
    unfolding needsQuoting_def list_ex_iff by blast
  have d: "doubleQuotes s = concat (map (\<lambda>c. if c = DQUOTE then [DQUOTE, DQUOTE] else [c]) s)"
    by (induction s) simp_all
  have r: "csvParse (escapeCSVField (Some t) @ [LF]) = Some [[t]]"
    if "CR \<notin> set t \<or> needsQuoting t" for t :: jsstring
    unfolding csvParse_def using csvRead_field_newline [OF _ that, of "[]" "[]" "[]"] by simp
  have e: "escapeCSVField (Some s)
      = (if needsQuoting s then [DQUOTE] @ doubleQuotes s @ [DQUOTE] else s)"
    by simp
  have o: "csvParse (escapeCSVField (Some t)) = Some [[t]]"
    if "CR \<notin> set t \<or> needsQuoting t" "t \<noteq> []" for t :: jsstring
    unfolding csvParse_def using csvRead_field_end [OF that, of "[]" "[]"] by simp
  have x: "needsQuoting (js ''a,\"b\"\<newline>c'')" "js ''a,\"b\"\<newline>c'' \<noteq> []"
    by (simp_all add: js_def needsQuoting_def)
  from r [of s] have i: "CR \<notin> set s \<or> needsQuoting s
        \<longrightarrow> csvParse (escapeCSVField (Some s) @ [LF]) = Some [[s]]" by blast
  from o [of s] have j: "(CR \<notin> set s \<or> needsQuoting s) \<and> s \<noteq> []
        \<longrightarrow> csvParse (escapeCSVField (Some s)) = Some [[s]]" by blast
  from x have k: "csvParse (escapeCSVField (Some (js ''a,\"b\"\<newline>c'')) @ [LF])
        = Some [[js ''a,\"b\"\<newline>c'']]" by (intro r) simp
  from x have l: "csvParse (escapeCSVField (Some (js ''a,\"b\"\<newline>c'')))
        = Some [[js ''a,\"b\"\<newline>c'']]" by (intro o) simp_all
  from e q d i j k l show ?thesis by (intro conjI)
qed

text \<open>
  At the specification's field, and at a field with a carriage return and a line feed,
  which is quoted for the line feed.
\<close>

theorem escapeCSVField_roundtrip_example:
  "needsQuoting (js ''a,\"b\"\<newline>c'')
   \<and> escapeCSVField (Some (js ''a,\"b\"\<newline>c'')) = js ''\"a,\"\"b\"\"\<newline>c\"''
   \<and> csvParse (js ''\"a,\"\"b\"\"\<newline>c\"'' @ [LF]) = Some [[js ''a,\"b\"\<newline>c'']]
   \<and> needsQuoting (js ''x'' @ [CR, LF] @ js ''y'')
   \<and> csvParse ([DQUOTE] @ js ''x'' @ [CR, LF] @ js ''y'' @ [DQUOTE] @ [LF])
        = Some [[js ''x'' @ [CR, LF] @ js ''y'']]"
  using escapeCSVField_roundtrip [of "js ''a,\"b\"\<newline>c''"]
    escapeCSVField_roundtrip [of "js ''x'' @ [CR, LF] @ js ''y''"]
  by (simp add: js_def needsQuoting_def)

text \<open>
  The claim as the specification words it, for every string field, fails at a field with
  a carriage return and no double quote, comma or line feed. The field is written as it
  is, and the reader, for which a carriage return ends the record, reads two records.
\<close>

theorem escapeCSVField_carriage_return_counterexample:
  "escapeCSVField (Some (js ''a'' @ [CR] @ js ''b'')) = js ''a'' @ [CR] @ js ''b''
   \<and> csvParse (escapeCSVField (Some (js ''a'' @ [CR] @ js ''b'')) @ [LF])
        = Some [[js ''a''], [js ''b'']]"
  by (simp add: js_def needsQuoting_def csvParse_def)

text \<open>
  It is so for every such field: the reader closes the first record at the first
  carriage return, before the end of the field.
\<close>

lemma csvRead_rows_grow:
  "csvRead st cur row rows input = Some r \<Longrightarrow> \<exists>more. r = rows @ more"
  by (induction st cur row rows input rule: csvRead.induct) (auto split: if_splits)

lemma escapeCSVField_carriage_return:
  fixes s :: "'a::len word list"
  assumes len: "8 \<le> LENGTH('a)" and cr: "CR \<in> set s" and nq: "\<not> needsQuoting s"
  shows "csvParse (escapeCSVField (Some s) @ [LF]) \<noteq> Some [[s]]"
proof
  assume readsBack: "csvParse (escapeCSVField (Some s) @ [LF]) = Some [[s]]"
  from cr obtain pre post where s: "s = pre @ CR # post" and pre: "CR \<notin> set pre"
    by (auto dest: split_list_first)
  from nq s have npre: "\<not> needsQuoting pre" by (simp add: needsQuoting_def)
  note sp = special_characters(4,5,6) [OF len]
  have "csvRead FieldStart [] [] [] (s @ [LF]) = csvRead AfterCR [] [] [[pre]] (post @ [LF])"
  proof (cases "pre = []")
    case True
    then show ?thesis using sp by (simp add: s)
  next
    case False
    have "csvRead FieldStart [] [] [] (pre @ CR # post @ [LF])
        = csvRead Unquoted pre [] [] (CR # post @ [LF])"
      by (rule csvRead_unquoted_field [OF npre pre False])
    then show ?thesis using sp by (simp add: s)
  qed
  with readsBack nq have "csvRead AfterCR [] [] [[pre]] (post @ [LF]) = Some [[s]]"
    by (simp add: csvParse_def)
  then obtain more where "[[s]] = [[pre]] @ more" by (auto dest: csvRead_rows_grow)
  then have "s = pre" by simp
  with s show False by simp
qed

section \<open>The flat export (\<open>processEmailsToCSV\<close>)\<close>

text \<open>
  A processed record, as \<open>processEmailsToCSV\<close> builds it from a message: the source's
  fields \<open>id\<close>, \<open>threadId\<close>, \<open>date\<close>, \<open>from\<close>, \<open>to\<close>, \<open>subject\<close>, \<open>body\<close>, all strings
  (\<open>id\<close>, \<open>from\<close>, \<open>to\<close> and \<open>body\<close> carry a suffix here).
\<close>

record email =
  id_e :: jsstring
  threadId :: jsstring
  date :: jsstring
  from_e :: jsstring
  to_e :: jsstring
  subject :: jsstring
  body_e :: jsstring

definition csvHeader :: jsstring where
  "csvHeader = js ''Message ID,Thread ID,Date,From,To,Subject,Body\<newline>''"

definition emailFields :: "email \<Rightarrow> jsstring list" where
  "emailFields e = [id_e e, threadId e, date e, from_e e, to_e e, subject e, body_e e]"

text \<open>
  \<^verbatim>\<open>
  const csvRow = [
    escapeCSVField(email.id), escapeCSVField(email.threadId), escapeCSVField(email.date),
    escapeCSVField(email.from), escapeCSVField(email.to), escapeCSVField(email.subject),
    escapeCSVField(email.body)
  ].join(',') + '\n';
  \<close>
\<close>

definition csvRow :: "email \<Rightarrow> jsstring" where
  "csvRow e = join [COMMA]
     [escapeCSVField (Some (id_e e)), escapeCSVField (Some (threadId e)),
      escapeCSVField (Some (date e)), escapeCSVField (Some (from_e e)),
      escapeCSVField (Some (to_e e)), escapeCSVField (Some (subject e)),
      escapeCSVField (Some (body_e e))] @ [LF]"

subsection \<open>What is written to the file\<close>

text \<open>
  \<open>fs.writeFileSync(path, data, 'utf8')\<close> and \<open>fs.appendFileSync(path, data, 'utf8')\<close>
  write the UTF-8 encoding of the string \<open>data\<close>: a code unit below 128 is one byte, a
  high surrogate followed by a low surrogate is one code point of four bytes, and a
  surrogate without its partner is written as U+FFFD. Each call encodes its own string.
\<close>

type_synonym byte = "8 word"

definition isHighSurrogate :: "jschar \<Rightarrow> bool" where
  "isHighSurrogate c = (0xD800 \<le> unat c \<and> unat c \<le> 0xDBFF)"

definition isLowSurrogate :: "jschar \<Rightarrow> bool" where
  "isLowSurrogate c = (0xDC00 \<le> unat c \<and> unat c \<le> 0xDFFF)"

definition byteOf :: "nat \<Rightarrow> byte" where
  "byteOf n = of_nat n"

definition utf8CodePoint :: "nat \<Rightarrow> byte list" where
  "utf8CodePoint n =
     (if n < 0x80 then [byteOf n]
      else if n < 0x800 then [byteOf (0xC0 + n div 64), byteOf (0x80 + n mod 64)]
      else if n < 0x10000
      then [byteOf (0xE0 + n div 4096), byteOf (0x80 + n div 64 mod 64), byteOf (0x80 + n mod 64)]
      else [byteOf (0xF0 + n div 262144), byteOf (0x80 + n div 4096 mod 64),
            byteOf (0x80 + n div 64 mod 64), byteOf (0x80 + n mod 64)])"

definition utf8Unit :: "jschar \<Rightarrow> byte list" where
  "utf8Unit c =
     (if isHighSurrogate c \<or> isLowSurrogate c then utf8CodePoint 0xFFFD
      else utf8CodePoint (unat c))"

definition pairCodePoint :: "jschar \<Rightarrow> jschar \<Rightarrow> nat" where
  "pairCodePoint hi lo = 0x10000 + (unat hi - 0xD800) * 0x400 + (unat lo - 0xDC00)"

fun utf8Encode :: "jsstring \<Rightarrow> byte list" where
  "utf8Encode [] = []"
| "utf8Encode [c] = utf8Unit c"
| "utf8Encode (c # d # s) =
     (if isHighSurrogate c \<and> isLowSurrogate d
      then utf8CodePoint (pairCodePoint c d) @ utf8Encode s
      else utf8Unit c @ utf8Encode (d # s))"

text \<open>
  \<^verbatim>\<open>
  const listData = await listResponse.json();
  if (!listData.messages || listData.messages.length === 0) {
    return { success: true, count: 0 };
  }
  ...
  const messages = await Promise.all(messagePromises);
  const processedEmails = messages.map(msg => { ... });
  ...
  fs.writeFileSync(csvFilePath, csvHeader, 'utf8');
  let csvData = '';
  for (const email of processedEmails) {
    const csvRow = ...;
    csvData += csvRow;
    if (csvData.length > 1000000) { // Write in chunks
      fs.appendFileSync(csvFilePath, csvData, 'utf8');
      csvData = '';
    }
  }
  if (csvData.length > 0) {
    fs.appendFileSync(csvFilePath, csvData, 'utf8');
  }
  \<close>
  The state of the write loop is the content of the file, in bytes, and the buffer
  \<open>csvData\<close>; \<open>fs.writeFileSync\<close> sets the content, \<open>fs.appendFileSync\<close> appends to it. The
  threshold is a parameter of the loop, so that the theorem covers every placement of the
  flushes; the source's value is \<open>1000000\<close>.

  \<open>processEmailsToCSV_file\<close> is the file that the function leaves: \<open>messages\<close> is the
  list of the response (an absent list counts as empty), \<open>processMessage\<close> what the map over
  the fetched messages makes of one message, and the result is \<open>None\<close> when the function
  returns before it creates a file, as it does for no messages.
\<close>

record export_state =
  fileContent :: "byte list"
  csvData :: jsstring

definition writeRow :: "nat \<Rightarrow> export_state \<Rightarrow> email \<Rightarrow> export_state" where
  "writeRow threshold st e =
     (let buffered = csvData st @ csvRow e
      in if length buffered > threshold
         then \<lparr>fileContent = fileContent st @ utf8Encode buffered, csvData = []\<rparr>
         else \<lparr>fileContent = fileContent st, csvData = buffered\<rparr>)"

definition writeCSV :: "nat \<Rightarrow> email list \<Rightarrow> byte list" where
  "writeCSV threshold processedEmails =
     (let st = foldl (writeRow threshold) \<lparr>fileContent = utf8Encode csvHeader, csvData = []\<rparr>
                 processedEmails
      in if length (csvData st) > 0 then fileContent st @ utf8Encode (csvData st)
         else fileContent st)"

definition processEmailsToCSV_file :: "('m \<Rightarrow> email) \<Rightarrow> 'm list \<Rightarrow> byte list option" where
  "processEmailsToCSV_file processMessage messages =
     (if messages = [] then None
      else Some (writeCSV 1000000 (map processMessage messages)))"

definition headerFields :: "jsstring list" where
  "headerFields = [js ''Message ID'', js ''Thread ID'', js ''Date'', js ''From'', js ''To'',
                   js ''Subject'', js ''Body'']"

subsection \<open>The bytes of an encoded string\<close>

lemma unat_byteOf: "k < 256 \<Longrightarrow> unat (byteOf k) = k"
  by (simp add: byteOf_def unat_of_nat)

lemma unat_unit: "k < 65536 \<Longrightarrow> unat (of_nat k :: jschar) = k"
  by (simp add: unat_of_nat)

lemma utf8CodePoint_high:
  assumes "128 \<le> n" "n < 1114112" "b \<in> set (utf8CodePoint n)"
  shows "128 \<le> unat b"
proof -
  have hi: "128 \<le> unat (byteOf k)" if "128 \<le> k" "k < 256" for k
    using that by (simp add: unat_byteOf)
  consider (two) "n < 0x800" | (three) "0x800 \<le> n" "n < 0x10000" | (four) "0x10000 \<le> n"
    by linarith
  then show ?thesis
  proof cases
    case two
    with assms have "b = byteOf (0xC0 + n div 64) \<or> b = byteOf (0x80 + n mod 64)"
      by (simp add: utf8CodePoint_def)
    moreover from two have "0xC0 + n div 64 < 256" "0x80 + n mod 64 < 256" by simp_all
    ultimately show ?thesis using hi by auto
  next
    case three
    with assms have "b = byteOf (0xE0 + n div 4096) \<or> b = byteOf (0x80 + n div 64 mod 64)
        \<or> b = byteOf (0x80 + n mod 64)"
      by (simp add: utf8CodePoint_def)
    moreover from three have "0xE0 + n div 4096 < 256" "0x80 + n div 64 mod 64 < 256"
        "0x80 + n mod 64 < 256" by simp_all
    ultimately show ?thesis using hi by auto
  next
    case four
    with assms have "b = byteOf (0xF0 + n div 262144) \<or> b = byteOf (0x80 + n div 4096 mod 64)
        \<or> b = byteOf (0x80 + n div 64 mod 64) \<or> b = byteOf (0x80 + n mod 64)"
      by (simp add: utf8CodePoint_def)
    moreover from four assms have "0xF0 + n div 262144 < 256" "0x80 + n div 4096 mod 64 < 256"
        "0x80 + n div 64 mod 64 < 256" "0x80 + n mod 64 < 256" by simp_all
    ultimately show ?thesis using hi by auto
  qed
qed


lemma utf8Unit_ascii: "unat c < 128 \<Longrightarrow> utf8Unit c = [byteOf (unat c)]"
  by (simp add: utf8Unit_def utf8CodePoint_def isHighSurrogate_def isLowSurrogate_def)

lemma utf8Unit_high:
  assumes "128 \<le> unat c" "b \<in> set (utf8Unit c)"
  shows "128 \<le> unat b"
proof (cases "isHighSurrogate c \<or> isLowSurrogate c")
  case True
  with assms(2) have "b \<in> set (utf8CodePoint 0xFFFD)" by (simp add: utf8Unit_def)
  then show ?thesis by (rule utf8CodePoint_high [rotated 2]) simp_all
next
  case False
  have "unat c < 2 ^ LENGTH(16)" by (rule unsigned_less)
  then have "unat c < 1114112" by simp
  moreover from False assms(2) have "b \<in> set (utf8CodePoint (unat c))" by (simp add: utf8Unit_def)
  ultimately show ?thesis using assms(1) by (intro utf8CodePoint_high [of "unat c"])
qed

lemma utf8Pair_high:
  assumes "isHighSurrogate c" "isLowSurrogate d" "b \<in> set (utf8CodePoint (pairCodePoint c d))"
  shows "128 \<le> unat b"
proof -
  from assms(1) have "unat c - 0xD800 \<le> 1023" by (auto simp: isHighSurrogate_def)
  then have "(unat c - 0xD800) * 0x400 \<le> 1023 * 0x400" by (rule mult_le_mono1)
  moreover from assms(2) have "unat d - 0xDC00 \<le> 1023" by (auto simp: isLowSurrogate_def)
  ultimately have "128 \<le> pairCodePoint c d" "pairCodePoint c d < 1114112"
    by (simp_all add: pairCodePoint_def)
  with assms(3) show ?thesis by (intro utf8CodePoint_high [of "pairCodePoint c d"])
qed

lemma unit_of_nat_unat: "(of_nat (unat c) :: jschar) = c"
  by simp

lemma utf8Unit_mem:
  assumes "k < 128"
  shows "(byteOf k \<in> set (utf8Unit c)) = (c = of_nat k)"
proof (cases "unat c < 128")
  case True
  from assms have k: "unat (byteOf k) = k" "unat (of_nat k :: jschar) = k"
    by (simp_all add: unat_byteOf unat_unit)
  from True have u: "unat (byteOf (unat c)) = unat c" by (simp add: unat_byteOf)
  have "(byteOf k = byteOf (unat c)) = (k = unat c)" using k(1) u by metis
  also have "\<dots> = (c = of_nat k)" using k(2) unit_of_nat_unat [of c] by metis
  finally show ?thesis using True by (simp add: utf8Unit_ascii eq_commute)
next
  case False
  have "byteOf k \<notin> set (utf8Unit c)"
  proof
    assume "byteOf k \<in> set (utf8Unit c)"
    with False have "128 \<le> unat (byteOf k)" by (intro utf8Unit_high [of c]) simp_all
    with assms show False by (simp add: unat_byteOf)
  qed
  moreover have "c \<noteq> of_nat k"
  proof
    assume "c = of_nat k"
    then have "unat c = k" using assms by (simp add: unat_unit)
    with False assms show False by simp
  qed
  ultimately show ?thesis by simp
qed

lemma utf8Pair_mem:
  assumes "k < 128" "isHighSurrogate c" "isLowSurrogate d"
  shows "byteOf k \<notin> set (utf8CodePoint (pairCodePoint c d))"
proof
  assume "byteOf k \<in> set (utf8CodePoint (pairCodePoint c d))"
  with assms(2,3) have "128 \<le> unat (byteOf k)" by (intro utf8Pair_high [of c d])
  with assms(1) show False by (simp add: unat_byteOf)
qed

lemma surrogate_not_ascii:
  assumes "k < 128" "isHighSurrogate c \<or> isLowSurrogate c"
  shows "c \<noteq> of_nat k"
proof
  assume "c = of_nat k"
  then have "unat c = k" using assms(1) by (simp add: unat_unit)
  with assms show False by (auto simp: isHighSurrogate_def isLowSurrogate_def)
qed

text \<open>
  An ASCII character is in the bytes exactly when it is in the string: every byte of the
  encoding of another code unit, and of a surrogate pair, is 128 or more.
\<close>

lemma ascii_in_utf8Encode:
  "k < 128 \<Longrightarrow> (byteOf k \<in> set (utf8Encode s)) = (of_nat k \<in> set s)"
proof (induction s rule: utf8Encode.induct)
  case 1
  show ?case by simp
next
  case (2 c)
  then show ?case using utf8Unit_mem [of k c] by auto
next
  case (3 c d s)
  show ?case
  proof (cases "isHighSurrogate c \<and> isLowSurrogate d")
    case True
    with 3 have ih: "(byteOf k \<in> set (utf8Encode s)) = (of_nat k \<in> set s)" by simp
    from True "3.prems" have "c \<noteq> of_nat k" "d \<noteq> of_nat k"
      by (simp_all add: surrogate_not_ascii)
    moreover from True "3.prems" have "byteOf k \<notin> set (utf8CodePoint (pairCodePoint c d))"
      by (simp add: utf8Pair_mem)
    ultimately show ?thesis using True ih by auto
  next
    case False
    with 3 have ih: "(byteOf k \<in> set (utf8Encode (d # s))) = (of_nat k \<in> set (d # s))" by simp
    with False show ?thesis using utf8Unit_mem [OF "3.prems", of c] by auto
  qed
qed

lemma special_bytes:
  "(DQUOTE \<in> set (utf8Encode s)) = (DQUOTE \<in> set s)"
  "(COMMA \<in> set (utf8Encode s)) = (COMMA \<in> set s)"
  "(LF \<in> set (utf8Encode s)) = (LF \<in> set s)"
  "(CR \<in> set (utf8Encode s)) = (CR \<in> set s)"
  using ascii_in_utf8Encode [of 34 s] ascii_in_utf8Encode [of 44 s]
    ascii_in_utf8Encode [of 10 s] ascii_in_utf8Encode [of 13 s]
  by (simp_all add: byteOf_def)

lemma needsQuoting_set:
  "needsQuoting s = (DQUOTE \<in> set s \<or> COMMA \<in> set s \<or> LF \<in> set s)"
  unfolding needsQuoting_def list_ex_iff by blast

lemma needsQuoting_utf8Encode: "needsQuoting (utf8Encode s) = needsQuoting s"
  by (simp add: needsQuoting_set special_bytes)

text \<open>
  An ASCII character is written as itself, wherever it stands, and what stands before and
  after it is encoded on its own.
\<close>

lemma utf8Encode_unit:
  "x = [] \<or> \<not> (isHighSurrogate c \<and> isLowSurrogate (hd x))
     \<Longrightarrow> utf8Encode (c # x) = utf8Unit c @ utf8Encode x"
  by (cases x) auto

lemma utf8Encode_ascii:
  assumes "unat c < 128"
  shows "utf8Encode (s @ c # t) = utf8Encode s @ byteOf (unat c) # utf8Encode t"
proof (induction s rule: utf8Encode.induct)
  case 1
  from assms have "\<not> isHighSurrogate c" by (simp add: isHighSurrogate_def)
  then show ?case using assms by (simp add: utf8Encode_unit utf8Unit_ascii)
next
  case (2 x)
  from assms have c: "\<not> isHighSurrogate c" "\<not> isLowSurrogate c"
    by (simp_all add: isHighSurrogate_def isLowSurrogate_def)
  then have "utf8Encode (c # t) = byteOf (unat c) # utf8Encode t"
    using assms by (simp add: utf8Encode_unit utf8Unit_ascii)
  with c show ?case by simp
next
  case (3 x y s)
  then show ?case by simp
qed


lemma utf8Encode_special:
  "utf8Encode (s @ DQUOTE # t) = utf8Encode s @ DQUOTE # utf8Encode t"
  "utf8Encode (s @ COMMA # t) = utf8Encode s @ COMMA # utf8Encode t"
  "utf8Encode (s @ LF # t) = utf8Encode s @ LF # utf8Encode t"
  using utf8Encode_ascii [of DQUOTE s t] utf8Encode_ascii [of COMMA s t]
    utf8Encode_ascii [of LF s t]
  by (simp_all add: byteOf_def)

lemma utf8Encode_append:
  assumes "a = [] \<or> last a = LF"
  shows "utf8Encode (a @ b) = utf8Encode a @ utf8Encode b"
proof (cases "a = []")
  case True
  then show ?thesis by simp
next
  case False
  with assms obtain a' where a: "a = a' @ [LF]" by (metis append_butlast_last_id)
  have "utf8Encode (a' @ LF # b) = utf8Encode a' @ LF # utf8Encode b"
    by (rule utf8Encode_special)
  moreover have "utf8Encode (a' @ [LF]) = utf8Encode a' @ [LF]"
    using utf8Encode_special(3) [of a' "[]"] by simp
  ultimately show ?thesis by (simp add: a)
qed

text \<open>Escaping and encoding can be done in either order.\<close>

lemma doubleQuotes_append: "doubleQuotes (a @ b) = doubleQuotes a @ doubleQuotes b"
  by (induction a) simp_all

lemma doubleQuotes_none: "DQUOTE \<notin> set s \<Longrightarrow> doubleQuotes s = s"
  by (induction s) simp_all

lemma utf8Unit_no_quote: "c \<noteq> DQUOTE \<Longrightarrow> DQUOTE \<notin> set (utf8Unit c)"
  using utf8Unit_mem [of 34 c] by (simp add: byteOf_def)

lemma utf8Pair_no_quote:
  "isHighSurrogate c \<Longrightarrow> isLowSurrogate d \<Longrightarrow> DQUOTE \<notin> set (utf8CodePoint (pairCodePoint c d))"
  using utf8Pair_mem [of 34 c d] by (simp add: byteOf_def)

lemma surrogate_no_quote: "isHighSurrogate c \<or> isLowSurrogate c \<Longrightarrow> c \<noteq> DQUOTE"
  using surrogate_not_ascii [of 34 c] by simp

lemma hd_doubleQuotes: "doubleQuotes (d # s) \<noteq> [] \<and> hd (doubleQuotes (d # s)) = d"
  by simp

lemma utf8Encode_doubleQuotes: "utf8Encode (doubleQuotes s) = doubleQuotes (utf8Encode s)"
proof (induction s rule: utf8Encode.induct)
  case 1
  show ?case by simp
next
  case (2 c)
  show ?case
  proof (cases "c = DQUOTE")
    case True
    have "utf8Encode [DQUOTE, DQUOTE] = [DQUOTE, DQUOTE]"
      using utf8Encode_special(1) [of "[]" "[DQUOTE]"] utf8Encode_special(1) [of "[]" "[]"]
      by simp
    moreover have "utf8Encode [DQUOTE] = [DQUOTE]"
      using utf8Encode_special(1) [of "[]" "[]"] by simp
    ultimately show ?thesis using True by simp
  next
    case False
    then show ?thesis by (simp add: doubleQuotes_none utf8Unit_no_quote)
  qed
next
  case (3 c d s)
  show ?case
  proof (cases "isHighSurrogate c \<and> isLowSurrogate d")
    case True
    then have ne: "c \<noteq> DQUOTE" "d \<noteq> DQUOTE" by (simp_all add: surrogate_no_quote)
    from True have pq: "doubleQuotes (utf8CodePoint (pairCodePoint c d))
        = utf8CodePoint (pairCodePoint c d)"
      by (simp add: doubleQuotes_none utf8Pair_no_quote)
    from True 3 have ih: "utf8Encode (doubleQuotes s) = doubleQuotes (utf8Encode s)" by simp
    from ne True have "utf8Encode (doubleQuotes (c # d # s))
        = utf8CodePoint (pairCodePoint c d) @ utf8Encode (doubleQuotes s)" by simp
    also have "\<dots> = doubleQuotes (utf8Encode (c # d # s))"
      using True by (simp add: ih doubleQuotes_append pq)
    finally show ?thesis .
  next
    case False
    with 3 have ih: "utf8Encode (doubleQuotes (d # s)) = doubleQuotes (utf8Encode (d # s))"
      by simp
    have right: "utf8Encode (c # d # s) = utf8Unit c @ utf8Encode (d # s)"
      by (simp only: utf8Encode.simps False if_False)
    show ?thesis
    proof (cases "c = DQUOTE")
      case True
      have "utf8Encode (DQUOTE # DQUOTE # doubleQuotes (d # s))
          = DQUOTE # DQUOTE # utf8Encode (doubleQuotes (d # s))"
        using utf8Encode_special(1) [of "[]" "DQUOTE # doubleQuotes (d # s)"]
          utf8Encode_special(1) [of "[]" "doubleQuotes (d # s)"] by simp
      moreover have "utf8Encode (DQUOTE # d # s) = DQUOTE # utf8Encode (d # s)"
        using utf8Encode_special(1) [of "[]" "d # s"] by simp
      ultimately show ?thesis using True ih by simp
    next
      case ne: False
      have step: "doubleQuotes (c # d # s) = c # doubleQuotes (d # s)" using ne by simp
      have unit: "utf8Encode (c # doubleQuotes (d # s))
          = utf8Unit c @ utf8Encode (doubleQuotes (d # s))"
        using False hd_doubleQuotes [of d s] by (intro utf8Encode_unit) simp
      have "utf8Encode (doubleQuotes (c # d # s)) = utf8Unit c @ doubleQuotes (utf8Encode (d # s))"
        by (simp only: step unit ih)
      also have "\<dots> = doubleQuotes (utf8Unit c @ utf8Encode (d # s))"
        by (simp only: doubleQuotes_append doubleQuotes_none [OF utf8Unit_no_quote [OF ne]])
      finally show ?thesis by (simp only: right)
    qed
  qed
qed

lemma utf8Encode_escapeCSVField:
  "utf8Encode (escapeCSVField (Some s)) = escapeCSVField (Some (utf8Encode s))"
proof (cases "needsQuoting s")
  case True
  have "utf8Encode (DQUOTE # doubleQuotes s @ [DQUOTE])
      = DQUOTE # utf8Encode (doubleQuotes s @ [DQUOTE])"
    using utf8Encode_special(1) [of "[]" "doubleQuotes s @ [DQUOTE]"] by simp
  also have "utf8Encode (doubleQuotes s @ [DQUOTE]) = utf8Encode (doubleQuotes s) @ [DQUOTE]"
    using utf8Encode_special(1) [of "doubleQuotes s" "[]"] by simp
  finally show ?thesis using True
    by (simp add: needsQuoting_utf8Encode utf8Encode_doubleQuotes)
next
  case False
  then show ?thesis by (simp add: needsQuoting_utf8Encode)
qed

lemma utf8Encode_join:
  "utf8Encode (join [COMMA] fs) = join [COMMA] (map utf8Encode fs)"
proof (induction fs)
  case Nil
  show ?case by simp
next
  case (Cons x fs)
  show ?case
  proof (cases fs)
    case Nil
    then show ?thesis by simp
  next
    case c: (Cons y ys)
    have "utf8Encode (x @ COMMA # join [COMMA] (y # ys))
        = utf8Encode x @ COMMA # utf8Encode (join [COMMA] (y # ys))"
      by (rule utf8Encode_special)
    with Cons c show ?thesis by simp
  qed
qed

lemma utf8Encode_csvLine: "utf8Encode (csvLine fs) = csvLine (map utf8Encode fs)"
proof -
  have "utf8Encode (join [COMMA] (map (\<lambda>f. escapeCSVField (Some f)) fs) @ [LF])
      = utf8Encode (join [COMMA] (map (\<lambda>f. escapeCSVField (Some f)) fs)) @ [LF]"
    using utf8Encode_special(3) [of _ "[]"] by simp
  then show ?thesis
    by (simp add: csvLine_def utf8Encode_join utf8Encode_escapeCSVField comp_def
             del: escapeCSVField.simps)
qed

text \<open>The encoder at a letter of two bytes, one of three, a pair and a lone surrogate.\<close>

lemma utf8Encode_examples:
  "utf8Encode [0xE9] = [0xC3, 0xA9]"
  "utf8Encode [0x20AC] = [0xE2, 0x82, 0xAC]"
  "utf8Encode [0xD83D, 0xDE00] = [0xF0, 0x9F, 0x98, 0x80]"
  "utf8Encode [0xD83D] = [0xEF, 0xBF, 0xBD]"
  "utf8Encode [0xDE00, 0x41] = [0xEF, 0xBF, 0xBD, 0x41]"
  by (simp_all add: utf8Unit_def utf8CodePoint_def isHighSurrogate_def isLowSurrogate_def
        pairCodePoint_def byteOf_def)

subsection \<open>Nothing is lost or repeated at a flush\<close>

lemma csvRow_csvLine: "csvRow e = csvLine (emailFields e)"
  by (simp add: csvRow_def csvLine_def emailFields_def)

lemma csvLine_ends: "csvLine fs \<noteq> [] \<and> last (csvLine fs) = LF"
  by (simp add: csvLine_def)

lemma ends_append:
  "b \<noteq> [] \<and> last b = (LF :: jschar) \<Longrightarrow> a @ b = [] \<or> last (a @ b) = LF"
  by simp

lemma writeRow_content:
  assumes "csvData st = [] \<or> last (csvData st) = LF"
  shows "fileContent (writeRow threshold st e) @ utf8Encode (csvData (writeRow threshold st e))
           = fileContent st @ utf8Encode (csvData st) @ utf8Encode (csvRow e)"
    and "csvData (writeRow threshold st e) = [] \<or> last (csvData (writeRow threshold st e)) = LF"
proof -
  have enc: "utf8Encode (csvData st @ csvRow e) = utf8Encode (csvData st) @ utf8Encode (csvRow e)"
    using assms by (rule utf8Encode_append)
  have ends: "csvData st @ csvRow e = [] \<or> last (csvData st @ csvRow e) = LF"
    using csvLine_ends [of "emailFields e"] by (simp add: csvRow_csvLine)
  show "fileContent (writeRow threshold st e) @ utf8Encode (csvData (writeRow threshold st e))
           = fileContent st @ utf8Encode (csvData st) @ utf8Encode (csvRow e)"
    by (simp add: writeRow_def Let_def enc)
  show "csvData (writeRow threshold st e) = [] \<or> last (csvData (writeRow threshold st e)) = LF"
    using ends by (simp add: writeRow_def Let_def)
qed

lemma foldl_writeRow_content:
  "csvData st = [] \<or> last (csvData st) = LF \<Longrightarrow>
   fileContent (foldl (writeRow threshold) st es)
       @ utf8Encode (csvData (foldl (writeRow threshold) st es))
     = fileContent st @ utf8Encode (csvData st) @ concat (map (\<lambda>e. utf8Encode (csvRow e)) es)"
proof (induction es arbitrary: st)
  case Nil
  show ?case by simp
next
  case (Cons e es)
  note step = writeRow_content [OF Cons.prems, of threshold e]
  have "fileContent (foldl (writeRow threshold) (writeRow threshold st e) es)
          @ utf8Encode (csvData (foldl (writeRow threshold) (writeRow threshold st e) es))
        = (fileContent (writeRow threshold st e) @ utf8Encode (csvData (writeRow threshold st e)))
          @ concat (map (\<lambda>e. utf8Encode (csvRow e)) es)"
    using Cons.IH [OF step(2)] by simp
  then show ?case by (simp add: step(1))
qed

lemma writeCSV_content:
  "writeCSV threshold es = utf8Encode csvHeader @ concat (map (\<lambda>e. utf8Encode (csvRow e)) es)"
proof -
  let ?st = "foldl (writeRow threshold) \<lparr>fileContent = utf8Encode csvHeader, csvData = []\<rparr> es"
  have "fileContent ?st @ utf8Encode (csvData ?st)
      = utf8Encode csvHeader @ concat (map (\<lambda>e. utf8Encode (csvRow e)) es)"
    using foldl_writeRow_content
      [of "\<lparr>fileContent = utf8Encode csvHeader, csvData = []\<rparr>" threshold es] by simp
  then show ?thesis by (cases "csvData ?st = []") (simp_all add: writeCSV_def Let_def)
qed

subsection \<open>Reading the file back\<close>

lemma csvHeader_csvLine: "csvHeader = csvLine headerFields"
  by (simp add: csvHeader_def headerFields_def csvLine_def js_def needsQuoting_def)

lemma headerFields_plain: "\<forall>f \<in> set headerFields. CR \<notin> set f"
  by (simp add: headerFields_def js_def)

lemma csvParse_file:
  assumes "\<forall>e \<in> set es. \<forall>f \<in> set (emailFields e). CR \<notin> set f \<or> needsQuoting f"
  shows "csvParse (utf8Encode csvHeader @ concat (map (\<lambda>e. utf8Encode (csvRow e)) es))
     = Some (map utf8Encode headerFields # map (\<lambda>e. map utf8Encode (emailFields e)) es)"
proof -
  let ?records = "map utf8Encode headerFields # map (\<lambda>e. map utf8Encode (emailFields e)) es"
  have content: "utf8Encode csvHeader @ concat (map (\<lambda>e. utf8Encode (csvRow e)) es)
      = concat (map csvLine ?records)"
    by (simp add: csvHeader_csvLine csvRow_csvLine utf8Encode_csvLine comp_def)
  have safe: "\<forall>fs \<in> set ?records. fs \<noteq> [] \<and> (\<forall>f \<in> set fs. CR \<notin> set f \<or> needsQuoting f)"
  proof
    fix fs assume "fs \<in> set ?records"
    then consider "fs = map utf8Encode headerFields"
      | e where "e \<in> set es" "fs = map utf8Encode (emailFields e)" by auto
    then show "fs \<noteq> [] \<and> (\<forall>f \<in> set fs. CR \<notin> set f \<or> needsQuoting f)"
    proof cases
      case 1
      then show ?thesis using headerFields_plain
        by (simp add: special_bytes headerFields_def)
    next
      case 2
      with assms have "\<forall>f \<in> set (emailFields e). CR \<notin> set f \<or> needsQuoting f" by simp
      with 2 show ?thesis
        by (simp add: special_bytes needsQuoting_utf8Encode emailFields_def)
    qed
  qed
  have "csvRead FieldStart [] [] [] (concat (map csvLine ?records)) = Some ([] @ ?records)"
    by (rule csvRead_lines [OF _ safe]) simp
  then show ?thesis by (simp add: csvParse_def content)
qed


text \<open>
  C8 (amended). For every non-empty list of N messages, the flat export writes a file that
  is the header row followed by the N record rows in input order, each row the UTF-8
  encoding of the record's escaped fields joined by commas and ended by a line feed; this
  holds for every flush threshold (the source's 1000000 in particular), so nothing is
  repeated or dropped at a flush, wherever the flushes fall. Read by a standard CSV
  reader, the file has exactly N + 1 records, the header and one record of seven fields
  per message, when no field has a carriage return without also having a double quote, a
  comma or a line feed.
\<close>

theorem processEmailsToCSV_rows:
  assumes "messages \<noteq> []"
  shows "processEmailsToCSV_file processMessage messages
       = Some (utf8Encode csvHeader
               @ concat (map (\<lambda>m. utf8Encode (csvRow (processMessage m))) messages))
     \<and> writeCSV threshold (map processMessage messages)
       = utf8Encode csvHeader
           @ concat (map (\<lambda>m. utf8Encode (csvRow (processMessage m))) messages)
     \<and> ((\<forall>m \<in> set messages. \<forall>f \<in> set (emailFields (processMessage m)).
            CR \<notin> set f \<or> needsQuoting f)
        \<longrightarrow> csvParse (writeCSV threshold (map processMessage messages))
              = Some (map utf8Encode headerFields
                      # map (\<lambda>m. map utf8Encode (emailFields (processMessage m))) messages)
          \<and> map_option length (csvParse (writeCSV threshold (map processMessage messages)))
              = Some (length messages + 1)
          \<and> map_option length
                (Option.bind (processEmailsToCSV_file processMessage messages) csvParse)
              = Some (length messages + 1))"
proof -
  let ?es = "map processMessage messages"
  have w: "writeCSV t ?es
       = utf8Encode csvHeader
           @ concat (map (\<lambda>m. utf8Encode (csvRow (processMessage m))) messages)" for t
    by (simp add: writeCSV_content comp_def)
  have f: "processEmailsToCSV_file processMessage messages = Some (writeCSV 1000000 ?es)"
    using assms by (simp add: processEmailsToCSV_file_def)
  have r: "csvParse (writeCSV t ?es)
        = Some (map utf8Encode headerFields
                # map (\<lambda>m. map utf8Encode (emailFields (processMessage m))) messages)"
    if "\<forall>m \<in> set messages. \<forall>f \<in> set (emailFields (processMessage m)).
            CR \<notin> set f \<or> needsQuoting f" for t
  proof -
    from that have "\<forall>e \<in> set ?es. \<forall>f \<in> set (emailFields e). CR \<notin> set f \<or> needsQuoting f"
      by simp
    then show ?thesis using csvParse_file [of ?es] by (simp add: writeCSV_content comp_def)
  qed
  from w [of threshold] w [of 1000000] f r [of threshold] r [of 1000000] show ?thesis
    by simp
qed

text \<open>
  The same at two records with a threshold of 40 code units, where the first record is
  flushed on its own and the second with the final append, and with the source's
  threshold. \<open>ascii\<close> gives the bytes of an ASCII text.
\<close>

definition ascii :: "string \<Rightarrow> byte list" where
  "ascii s = map of_char s"

definition sampleRecords :: "email list" where
  "sampleRecords =
     [\<lparr>id_e = js ''m1'', threadId = js ''t1'', date = js ''Mon, 1 Jan'', from_e = js ''a@x.org'',
       to_e = js ''b@x.org'', subject = js ''Hi, all'', body_e = js ''one\<newline>two''\<rparr>,
      \<lparr>id_e = js ''m2'', threadId = js ''t1'', date = js [], from_e = js [],
       to_e = js [], subject = js ''Re'', body_e = js ''say \"x\"''\<rparr>]"

lemmas ev8 = sampleRecords_def csvHeader_def csvRow_def emailFields_def js_def ascii_def
  needsQuoting_def utf8Unit_def utf8CodePoint_def isHighSurrogate_def isLowSurrogate_def byteOf_def

theorem processEmailsToCSV_rows_example:
  "writeCSV 40 sampleRecords
     = ascii (''Message ID,Thread ID,Date,From,To,Subject,Body\<newline>'' @
              ''m1,t1,\"Mon, 1 Jan\",a@x.org,b@x.org,\"Hi, all\",\"one\<newline>two\"\<newline>'' @
              ''m2,t1,,,,Re,\"say \"\"x\"\"\"\<newline>'')
   \<and> processEmailsToCSV_file id sampleRecords = Some (writeCSV 40 sampleRecords)
   \<and> map_option length (csvParse (writeCSV 40 sampleRecords)) = Some 3"
proof -
  have ne: "sampleRecords \<noteq> []" by (simp add: sampleRecords_def)
  have safe: "\<forall>m \<in> set sampleRecords. \<forall>f \<in> set (emailFields m). CR \<notin> set f \<or> needsQuoting f"
    by (simp add: sampleRecords_def emailFields_def js_def)
  note small = processEmailsToCSV_rows [OF ne, of id 40]
  let ?content = "utf8Encode csvHeader @ concat (map (\<lambda>m. utf8Encode (csvRow m)) sampleRecords)"
  from small have w: "writeCSV 40 sampleRecords = ?content" by simp
  from small have f: "processEmailsToCSV_file id sampleRecords = Some ?content" by simp
  from small safe have "map_option length (csvParse (writeCSV 40 sampleRecords))
      = Some (length sampleRecords + 1)" by auto
  moreover have "length sampleRecords + 1 = 3" by (simp add: sampleRecords_def)
  ultimately have n: "map_option length (csvParse (writeCSV 40 sampleRecords)) = Some 3"
    by (simp only:)
  have "?content
     = ascii (''Message ID,Thread ID,Date,From,To,Subject,Body\<newline>'' @
              ''m1,t1,\"Mon, 1 Jan\",a@x.org,b@x.org,\"Hi, all\",\"one\<newline>two\"\<newline>'' @
              ''m2,t1,,,,Re,\"say \"\"x\"\"\"\<newline>'')"
    by (simp add: ev8)
  with w have v: "writeCSV 40 sampleRecords
     = ascii (''Message ID,Thread ID,Date,From,To,Subject,Body\<newline>'' @
              ''m1,t1,\"Mon, 1 Jan\",a@x.org,b@x.org,\"Hi, all\",\"one\<newline>two\"\<newline>'' @
              ''m2,t1,,,,Re,\"say \"\"x\"\"\"\<newline>'')" by (simp only:)
  from f w have g: "processEmailsToCSV_file id sampleRecords = Some (writeCSV 40 sampleRecords)"
    by (simp only:)
  from v g n show ?thesis by (intro conjI)
qed

text \<open>
  The claim as the specification words it, for every list, fails for the empty list, for
  which the function returns before it creates a file, and for a record with a carriage
  return in a field that is not quoted: the file of that one record reads as three records.
\<close>

theorem processEmailsToCSV_rows_counterexample:
  "processEmailsToCSV_file id ([] :: email list) = None
   \<and> map_option length
        (Option.bind
           (processEmailsToCSV_file id
              [\<lparr>id_e = js ''m1'', threadId = js ''t1'', date = js [], from_e = js [], to_e = js [],
                subject = js ''Hi'', body_e = js ''a'' @ [CR] @ js ''b''\<rparr>])
           csvParse)
      = Some 3"
  by (simp add: processEmailsToCSV_file_def writeCSV_content csvParse_def ev8)

section \<open>Regular expressions\<close>

text \<open>
  The regular expressions of the source are written as terms of \<open>re\<close> and run by a
  backtracking matcher. A matcher state is the code unit before the current position
  (\<open>None\<close> at the start of the input) and the rest of the input. \<open>rmatch r st\<close> lists the
  states in which a match of \<open>r\<close> from \<open>st\<close> can end, in the order in which backtracking
  tries them, so that its head is the match JavaScript reports: the left branch of an
  alternative first, a greedy star with more iterations first, a lazy one with fewer.
  As in ECMAScript, a star does not repeat an iteration that matched the empty string, so
  the number of iterations is bounded by the length of the rest of the input.
  \<open>Bol\<close> is \<open>^\<close>, \<open>Eol\<close> is \<open>$\<close> (no expression of the source has the \<open>m\<close> flag) and
  \<open>WordB\<close> is \<open>\b\<close>.
\<close>

type_synonym rstate = "jschar option \<times> jsstring"

datatype re = Cls "jschar \<Rightarrow> bool" | Eps | Seq re re | Alt re re | Star re | LazyStar re
  | Bol | Eol | WordB

definition isWordChar :: "jschar \<Rightarrow> bool" where
  "isWordChar c = ((65 \<le> c \<and> c \<le> 90) \<or> (97 \<le> c \<and> c \<le> 122) \<or> (48 \<le> c \<and> c \<le> 57) \<or> c = 95)"

definition isDigit :: "jschar \<Rightarrow> bool" where
  "isDigit c = (48 \<le> c \<and> c \<le> 57)"

definition isAsciiLetter :: "jschar \<Rightarrow> bool" where
  "isAsciiLetter c = ((65 \<le> c \<and> c \<le> 90) \<or> (97 \<le> c \<and> c \<le> 122))"

definition wordBefore :: "rstate \<Rightarrow> bool" where
  "wordBefore st = (case fst st of None \<Rightarrow> False | Some c \<Rightarrow> isWordChar c)"

definition wordAfter :: "rstate \<Rightarrow> bool" where
  "wordAfter st = (case snd st of [] \<Rightarrow> False | c # s \<Rightarrow> isWordChar c)"

fun starIter :: "bool \<Rightarrow> nat \<Rightarrow> (rstate \<Rightarrow> rstate list) \<Rightarrow> rstate \<Rightarrow> rstate list" where
  "starIter greedy 0 f st = [st]"
| "starIter greedy (Suc n) f st =
     (let more = concat (map (starIter greedy n f)
                   (filter (\<lambda>st'. length (snd st') < length (snd st)) (f st)))
      in if greedy then more @ [st] else st # more)"

primrec rmatch :: "re \<Rightarrow> rstate \<Rightarrow> rstate list" where
  "rmatch (Cls p) st = (case snd st of [] \<Rightarrow> [] | c # s \<Rightarrow> if p c then [(Some c, s)] else [])"
| "rmatch Eps st = [st]"
| "rmatch (Seq a b) st = concat (map (rmatch b) (rmatch a st))"
| "rmatch (Alt a b) st = rmatch a st @ rmatch b st"
| "rmatch (Star r) st = starIter True (length (snd st)) (rmatch r) st"
| "rmatch (LazyStar r) st = starIter False (length (snd st)) (rmatch r) st"
| "rmatch Bol st = (if fst st = None then [st] else [])"
| "rmatch Eol st = (if snd st = [] then [st] else [])"
| "rmatch WordB st = (if wordBefore st \<noteq> wordAfter st then [st] else [])"

text \<open>
  \<open>regex.test(s)\<close> for an expression without the \<open>g\<close> flag: is there a match starting at
  some position of \<open>s\<close>.
\<close>

fun regexSearch :: "re \<Rightarrow> jschar option \<Rightarrow> jsstring \<Rightarrow> bool" where
  "regexSearch r prev [] = (rmatch r (prev, []) \<noteq> [])"
| "regexSearch r prev (c # s) = (rmatch r (prev, c # s) \<noteq> [] \<or> regexSearch r (Some c) s)"

definition regexTest :: "re \<Rightarrow> jsstring \<Rightarrow> bool" where
  "regexTest r s = regexSearch r None s"

text \<open>
  Derived forms: \<open>r+\<close>, \<open>r?\<close>, one code unit, one code unit under the \<open>i\<close> flag (which,
  without the \<open>u\<close> flag, folds the case of ASCII letters only when the pattern is ASCII),
  sequences, alternatives and literal strings.
\<close>

definition Plus :: "re \<Rightarrow> re" where "Plus r = Seq r (Star r)"
definition Opt :: "re \<Rightarrow> re" where "Opt r = Alt r Eps"
definition Chr :: "jschar \<Rightarrow> re" where "Chr c = Cls (\<lambda>x. x = c)"

definition foldCase :: "jschar \<Rightarrow> jschar" where
  "foldCase c = (if 65 \<le> c \<and> c \<le> 90 then c + 32 else c)"

definition ChrI :: "jschar \<Rightarrow> re" where "ChrI c = Cls (\<lambda>x. foldCase x = foldCase c)"

fun Seqs :: "re list \<Rightarrow> re" where
  "Seqs [] = Eps"
| "Seqs [r] = r"
| "Seqs (r # rs) = Seq r (Seqs rs)"

fun Alts :: "re list \<Rightarrow> re" where
  "Alts [] = Cls (\<lambda>x. False)"
| "Alts [r] = r"
| "Alts (r # rs) = Alt r (Alts rs)"

definition Lit :: "string \<Rightarrow> re" where "Lit s = Seqs (map Chr (js s))"
definition LitI :: "string \<Rightarrow> re" where "LitI s = Seqs (map ChrI (js s))"

subsection \<open>Replacing all matches\<close>

text \<open>
  \<open>s.replace(regex, rep)\<close> for an expression with the \<open>g\<close> flag and a replacement without
  \<open>$\<close> patterns: the leftmost match is replaced and the search goes on behind it; after an
  empty match one code unit is copied before the search goes on.
\<close>

function regexReplace :: "re \<Rightarrow> jsstring \<Rightarrow> jschar option \<Rightarrow> jsstring \<Rightarrow> jsstring" where
  "regexReplace r rep prev s =
     (case rmatch r (prev, s) of
        [] \<Rightarrow> (case s of [] \<Rightarrow> [] | c # t \<Rightarrow> c # regexReplace r rep (Some c) t)
      | st # _ \<Rightarrow>
          if length (snd st) < length s then rep @ regexReplace r rep (fst st) (snd st)
          else (case s of [] \<Rightarrow> rep | c # t \<Rightarrow> rep @ c # regexReplace r rep (Some c) t))"
  by pat_completeness auto
termination
  by (relation "measure (\<lambda>(r, rep, prev, s). length s)") auto

declare regexReplace.simps [simp del]

definition replaceAll :: "re \<Rightarrow> jsstring \<Rightarrow> jsstring \<Rightarrow> jsstring" where
  "replaceAll r rep s = regexReplace r rep None s"

subsection \<open>The expressions of \<open>escapeCSVField\<close>\<close>

text \<open>
  The test \<open>/[",\n]/.test(str)\<close> and the replacement \<open>str.replace(/"/g, '""')\<close> of
  \<open>escapeCSVField\<close>, run by the matcher, are \<open>needsQuoting\<close> and \<open>doubleQuotes\<close>.
\<close>

lemma regexReplace_doubleQuotes:
  "regexReplace (Cls (\<lambda>x. x = DQUOTE)) [DQUOTE, DQUOTE] prev s = doubleQuotes s"
proof (induction s arbitrary: prev)
  case Nil
  show ?case by (subst regexReplace.simps) simp
next
  case (Cons c s)
  show ?case by (subst regexReplace.simps) (simp add: Cons)
qed

lemma replaceAll_doubleQuotes: "replaceAll (Chr DQUOTE) [DQUOTE, DQUOTE] s = doubleQuotes s"
  by (simp add: replaceAll_def Chr_def regexReplace_doubleQuotes)

lemma regexSearch_needsQuoting:
  "regexSearch (Cls (\<lambda>c. c = DQUOTE \<or> c = COMMA \<or> c = LF)) prev s = needsQuoting s"
  by (induction s arbitrary: prev) (auto simp: needsQuoting_def)

lemma regexTest_needsQuoting:
  "regexTest (Cls (\<lambda>c. c = DQUOTE \<or> c = COMMA \<or> c = LF)) s = needsQuoting s"
  by (simp add: regexTest_def regexSearch_needsQuoting)

section \<open>Whitespace normalisation (\<open>normalizeWhitespace\<close>)\<close>

text \<open>
  \<open>isSpace\<close> is the set that \<open>String.prototype.trim\<close> strips and that \<open>\s\<close> matches:
  the WhiteSpace and LineTerminator code points of ECMAScript (TAB, LF, VT, FF, CR, SPACE,
  NBSP, U+1680, U+2000 to U+200A, U+2028, U+2029, U+202F, U+205F, U+3000, U+FEFF).
\<close>

abbreviation SPACE :: jschar where "SPACE \<equiv> 32"
abbreviation TAB :: jschar where "TAB \<equiv> 9"

definition isSpace :: "jschar \<Rightarrow> bool" where
  "isSpace c = (c \<in> {9, 10, 11, 12, 13, 32, 160, 5760, 8232, 8233, 8239, 8287, 12288, 65279}
                \<or> (8192 \<le> c \<and> c \<le> 8202))"

text \<open>\<open>s.trim()\<close>: strip the white space at both ends.\<close>

definition trim :: "jsstring \<Rightarrow> jsstring" where
  "trim s = rev (dropWhile isSpace (rev (dropWhile isSpace s)))"

text \<open>
  \<^verbatim>\<open>
  function normalizeWhitespace(text) {
    return text.replace(/[ \t]+/g, ' ').replace(/\n+/g, '\n').trim();
  }
  \<close>
\<close>

definition normalizeWhitespace :: "jsstring \<Rightarrow> jsstring" where
  "normalizeWhitespace text =
     trim (replaceAll (Plus (Chr LF)) [LF]
       (replaceAll (Plus (Cls (\<lambda>c. c = SPACE \<or> c = TAB))) [SPACE] text))"

subsection \<open>Replacing the runs of a character class\<close>

text \<open>
  What \<open>s.replace(/[...]+/g, r)\<close> computes for a character class and a replacement of one
  code unit: every maximal run of code units of the class \<open>p\<close> is replaced by \<open>r\<close> (the
  greedy \<open>+\<close> takes the whole run at the leftmost match, and the search goes on behind
  it).
\<close>

function collapseRuns :: "(jschar \<Rightarrow> bool) \<Rightarrow> jschar \<Rightarrow> jsstring \<Rightarrow> jsstring" where
  "collapseRuns p r [] = []"
| "collapseRuns p r (c # s) =
     (if p c then r # collapseRuns p r (dropWhile p s) else c # collapseRuns p r s)"
  by pat_completeness auto
termination
  by (relation "measure (\<lambda>(p, r, s). length s)")
     (auto simp: length_dropWhile_le le_imp_less_Suc)

text \<open>
  The matcher computes the same: on a run the greedy star first offers the end of the
  whole run, and the replacement goes on from there.
\<close>

lemma starIter_class:
  assumes f: "\<And>q u. f (q, u) = (case u of [] \<Rightarrow> [] | c # t \<Rightarrow> if p c then [(Some c, t)] else [])"
  shows "length u \<le> n \<Longrightarrow> \<exists>q' rest. starIter True n f (q, u) = (q', dropWhile p u) # rest"
proof (induction n arbitrary: q u)
  case 0
  then show ?case by simp
next
  case (Suc n)
  show ?case
  proof (cases u)
    case Nil
    then show ?thesis by (simp add: f)
  next
    case (Cons c t)
    show ?thesis
    proof (cases "p c")
      case True
      from Suc.prems Cons have "length t \<le> n" by simp
      from Suc.IH [OF this, of "Some c"] obtain q' rest
        where "starIter True n f (Some c, t) = (q', dropWhile p t) # rest" by blast
      with True Cons show ?thesis by (simp add: f)
    next
      case False
      with Cons show ?thesis by (simp add: f)
    qed
  qed
qed

lemma rmatch_star_class:
  "\<exists>q' rest. rmatch (Star (Cls p)) (q, u) = (q', dropWhile p u) # rest"
proof -
  have f: "rmatch (Cls p) (q, u) = (case u of [] \<Rightarrow> [] | c # t \<Rightarrow> if p c then [(Some c, t)] else [])"
    for q u by simp
  from starIter_class [of "rmatch (Cls p)" p u "length u" q, OF f] show ?thesis by simp
qed

lemma rmatch_class_run:
  "rmatch (Plus (Cls p)) (prev, s)
     = (case s of [] \<Rightarrow> [] | c # t \<Rightarrow> if p c then rmatch (Star (Cls p)) (Some c, t) else [])"
  by (cases s) (simp_all add: Plus_def)

lemma regexReplace_class_run:
  "regexReplace (Plus (Cls p)) [r] prev s = collapseRuns p r s"
proof (induction p r s arbitrary: prev rule: collapseRuns.induct)
  case (1 p r)
  show ?case by (subst regexReplace.simps) (simp add: rmatch_class_run)
next
  case (2 p r c s)
  show ?case
  proof (cases "p c")
    case True
    from rmatch_star_class [of p "Some c" s] obtain q' rest
      where h: "rmatch (Star (Cls p)) (Some c, s) = (q', dropWhile p s) # rest" by blast
    have l: "length (dropWhile p s) < length (c # s)"
      using length_dropWhile_le [of p s] by simp
    have "regexReplace (Plus (Cls p)) [r] prev (c # s)
        = [r] @ regexReplace (Plus (Cls p)) [r] q' (dropWhile p s)"
      using True h l by (subst regexReplace.simps) (simp add: rmatch_class_run)
    with True 2(1) [of q'] show ?thesis by simp
  next
    case False
    have "regexReplace (Plus (Cls p)) [r] prev (c # s)
        = c # regexReplace (Plus (Cls p)) [r] (Some c) s"
      using False by (subst regexReplace.simps) (simp add: rmatch_class_run)
    with False 2(2) [of "Some c"] show ?thesis by simp
  qed
qed

lemma replaceAll_class_run: "replaceAll (Plus (Cls p)) [r] s = collapseRuns p r s"
  by (simp add: replaceAll_def regexReplace_class_run)

lemma normalizeWhitespace_runs:
  "normalizeWhitespace text =
     trim (collapseRuns (\<lambda>c. c = LF) LF (collapseRuns (\<lambda>c. c = SPACE \<or> c = TAB) SPACE text))"
  by (simp add: normalizeWhitespace_def Chr_def replaceAll_class_run)

text \<open>
  A string is \<open>collapsed\<close> for a class and its replacement when every code unit of the class
  is the replacement and is not followed by another one of the class: the strings that
  \<open>collapseRuns\<close> leaves alone.
\<close>

fun collapsed :: "(jschar \<Rightarrow> bool) \<Rightarrow> jschar \<Rightarrow> jsstring \<Rightarrow> bool" where
  "collapsed p r [] = True"
| "collapsed p r (c # s) = ((p c \<longrightarrow> c = r \<and> (s = [] \<or> \<not> p (hd s))) \<and> collapsed p r s)"

lemma collapsed_fix: "collapsed p r s \<Longrightarrow> collapseRuns p r s = s"
proof (induction s)
  case Nil show ?case by simp
next
  case (Cons c s)
  then have "dropWhile p s = s" if "p c" using that by (cases s) auto
  with Cons show ?case by auto
qed

lemma collapsed_dropWhile: "collapsed p r s \<Longrightarrow> collapsed p r (dropWhile q s)"
  by (induction s) auto

lemma collapseRuns_hd:
  "t = [] \<or> \<not> p (hd t) \<Longrightarrow> collapseRuns p r t = [] \<or> \<not> p (hd (collapseRuns p r t))"
  by (cases t) auto

lemma dropWhile_hd: "dropWhile p s = [] \<or> \<not> p (hd (dropWhile p s))"
  using hd_dropWhile [of p s] by blast

lemma collapsed_collapseRuns: "p r \<Longrightarrow> collapsed p r (collapseRuns p r s)"
proof (induction p r s rule: collapseRuns.induct)
  case (1 p r) show ?case by simp
next
  case (2 p r c s)
  show ?case
  proof (cases "p c")
    case True
    have "collapseRuns p r (dropWhile p s) = [] \<or> \<not> p (hd (collapseRuns p r (dropWhile p s)))"
      by (rule collapseRuns_hd [OF dropWhile_hd])
    with True 2 show ?thesis by simp
  next
    case False
    with 2 show ?thesis by simp
  qed
qed

lemma collapsed_append: "collapsed p r (s @ t) \<Longrightarrow> collapsed p r s"
proof (induction s)
  case Nil show ?case by simp
next
  case (Cons c s)
  then show ?case by (cases s) auto
qed

lemma collapsed_trim: "collapsed p r s \<Longrightarrow> collapsed p r (trim s)"
proof -
  assume a: "collapsed p r s"
  let ?v = "dropWhile isSpace s"
  have v: "collapsed p r ?v" using a by (rule collapsed_dropWhile)
  have "rev ?v = takeWhile isSpace (rev ?v) @ dropWhile isSpace (rev ?v)" by simp
  then have "rev (rev ?v) = rev (dropWhile isSpace (rev ?v)) @ rev (takeWhile isSpace (rev ?v))"
    by (metis rev_append)
  then have "?v = trim s @ rev (takeWhile isSpace (rev ?v))" by (simp add: trim_def)
  with v show ?thesis using collapsed_append by metis
qed

lemma collapsed_other:
  "collapsed p r s \<Longrightarrow> \<not> p r' \<Longrightarrow> (\<And>c. q c \<Longrightarrow> \<not> p c) \<Longrightarrow> collapsed p r (collapseRuns q r' s)"
proof (induction q r' s rule: collapseRuns.induct)
  case (1 q r') show ?case by simp
next
  case (2 q r' c s)
  show ?case
  proof (cases "q c")
    case True
    have "collapsed p r s" using 2 by simp
    then have "collapsed p r (dropWhile q s)" by (rule collapsed_dropWhile)
    then have "collapsed p r (collapseRuns q r' (dropWhile q s))" using 2 True by simp
    then show ?thesis using True 2 by simp
  next
    case False
    have ih: "collapsed p r (collapseRuns q r' s)" using 2 False by simp
    have "collapseRuns q r' s = [] \<or> \<not> p (hd (collapseRuns q r' s))" if "p c"
    proof (cases s)
      case Nil then show ?thesis by simp
    next
      case (Cons d t)
      with 2 that have "\<not> p d" by simp
      then show ?thesis using Cons 2(4,5) by auto
    qed
    with ih False 2 show ?thesis by auto
  qed
qed

lemma trim_trim: "trim (trim s) = trim s"
proof -
  let ?v = "dropWhile isSpace s"
  let ?u = "trim s"
  have ru: "rev ?u = dropWhile isSpace (rev ?v)" by (simp add: trim_def)
  have front: "dropWhile isSpace ?u = ?u"
  proof (cases "?u = []")
    case True then show ?thesis by simp
  next
    case False
    then have ne: "dropWhile isSpace (rev ?v) \<noteq> []" using ru by (metis rev_is_Nil_conv)
    then have vne: "?v \<noteq> []" by (metis dropWhile.simps(1) rev.simps(1))
    have "rev ?v = takeWhile isSpace (rev ?v) @ dropWhile isSpace (rev ?v)" by simp
    then have "last (rev ?v) = last (dropWhile isSpace (rev ?v))" using ne by (metis last_appendR)
    then have "hd ?v = hd ?u" using vne ne ru by (metis hd_rev rev_rev_ident rev_is_Nil_conv)
    moreover have "\<not> isSpace (hd ?v)" using vne hd_dropWhile by metis
    ultimately show ?thesis using False by (cases ?u) auto
  qed
  have "trim ?u = rev (dropWhile isSpace (rev ?u))" using front by (simp add: trim_def)
  also have "\<dots> = rev (dropWhile isSpace (dropWhile isSpace (rev ?v)))" using ru by simp
  also have "\<dots> = ?u" using ru by (simp add: dropWhile_idem trim_def)
  finally show ?thesis .
qed

text \<open>
  C9. The text normalizer is idempotent: for every input string \<open>x\<close>,
  \<open>normalizeWhitespace (normalizeWhitespace x) = normalizeWhitespace x\<close>.
\<close>

theorem normalizeWhitespace_idempotent:
  "normalizeWhitespace (normalizeWhitespace x) = normalizeWhitespace x"
proof -
  let ?p1 = "\<lambda>c. c = SPACE \<or> c = TAB" and ?p2 = "\<lambda>c. c = LF"
  let ?a = "collapseRuns ?p1 SPACE x"
  let ?b = "collapseRuns ?p2 LF ?a"
  have a1: "collapsed ?p1 SPACE ?a" by (rule collapsed_collapseRuns) simp
  have b1: "collapsed ?p1 SPACE ?b" by (rule collapsed_other [OF a1]) auto
  have b2: "collapsed ?p2 LF ?b" by (rule collapsed_collapseRuns) simp
  have y1: "collapsed ?p1 SPACE (trim ?b)" using b1 by (rule collapsed_trim)
  have y2: "collapsed ?p2 LF (trim ?b)" using b2 by (rule collapsed_trim)
  show ?thesis
    by (simp add: normalizeWhitespace_runs collapsed_fix [OF y1] collapsed_fix [OF y2] trim_trim)
qed

section \<open>Plain-text cleaning (\<open>cleanPlainText\<close>)\<close>

text \<open>\<^verbatim>\<open>/^[\s]*(Best regards|Sincerely|Cheers|Thanks),?[\s]*$/i\<close>\<close>

definition salutationRe :: re where
  "salutationRe = Seqs [Bol, Star (Cls isSpace),
      Alts [LitI ''Best regards'', LitI ''Sincerely'', LitI ''Cheers'', LitI ''Thanks''],
      Opt (Chr COMMA), Star (Cls isSpace), Eol]"


text \<open>
  \<^verbatim>\<open>/\b[A-Za-z0-9._%+-]+@[A-Za-z0-9.-]+\.[A-Z]{2,}\b/i\<close>,
  \<^verbatim>\<open>/\b\d{3}-\d{3}-\d{4}\b/\<close> and \<^verbatim>\<open>/https?:\/\/[^\s]+/\<close>.
\<close>

definition emailRe :: re where
  "emailRe = Seqs [WordB,
      Plus (Cls (\<lambda>c. isAsciiLetter c \<or> isDigit c \<or> c \<in> {46, 95, 37, 43, 45})),
      Chr 64,
      Plus (Cls (\<lambda>c. isAsciiLetter c \<or> isDigit c \<or> c \<in> {46, 45})),
      Chr 46,
      Cls isAsciiLetter, Cls isAsciiLetter, Star (Cls isAsciiLetter),
      WordB]"

definition phoneRe :: re where
  "phoneRe = Seqs [WordB, Cls isDigit, Cls isDigit, Cls isDigit, Chr 45,
      Cls isDigit, Cls isDigit, Cls isDigit, Chr 45,
      Cls isDigit, Cls isDigit, Cls isDigit, Cls isDigit, WordB]"

definition urlRe :: re where
  "urlRe = Seqs [Lit ''http'', Opt (Chr 115), Lit ''://'', Plus (Cls (\<lambda>c. \<not> isSpace c))]"

text \<open>\<open>s.startsWith(p)\<close> and \<open>s.split(sep)\<close> for a one-unit separator.\<close>

definition startsWith :: "jsstring \<Rightarrow> jsstring \<Rightarrow> bool" where
  "startsWith s p = (take (length p) s = p)"

function split :: "jschar \<Rightarrow> jsstring \<Rightarrow> jsstring list" where
  "split sep s =
     (case dropWhile (\<lambda>c. c \<noteq> sep) s of
        [] \<Rightarrow> [s]
      | _ # rest \<Rightarrow> takeWhile (\<lambda>c. c \<noteq> sep) s # split sep rest)"
  by pat_completeness auto
termination
proof (relation "measure (\<lambda>(sep, s). length s)")
  show "wf (measure (\<lambda>(sep, s). length s))" by simp
next
  fix sep :: jschar and s x21 x22
  assume a: "dropWhile (\<lambda>c. c \<noteq> sep) s = x21 # x22"
  have "length (dropWhile (\<lambda>c. c \<noteq> sep) s) \<le> length s" by (rule length_dropWhile_le)
  with a show "((sep, x22), (sep, s)) \<in> measure (\<lambda>(sep, s). length s)" by simp
qed

declare split.simps [simp del]

text \<open>
  Both files have the same signature scan:
  \<^verbatim>\<open>
  function cleanPlainText(text) {
    if (!text) return '';
    const lines = text.split('\n');
    let signatureStart = -1;
    for (let i = lines.length - 1; i >= 0; i--) {
      const trimmed = lines[i].trim();
      if (trimmed.startsWith('--') ||
          /^[\s]*(Best regards|Sincerely|Cheers|Thanks),?[\s]*$/i.test(trimmed)) {
        signatureStart = i;
        break;
      }
    }
    if (signatureStart !== -1) {
      lines.splice(signatureStart);
    }
  \<close>
  \<open>scanSignature lines n\<close> is the loop with \<open>n\<close> lines still to look at (\<open>i = n - 1\<close>);
  \<open>None\<close> is the source's \<open>-1\<close>. \<open>lines.splice(i)\<close> keeps the first \<open>i\<close> lines.
\<close>

definition isSignatureLine :: "jsstring \<Rightarrow> bool" where
  "isSignatureLine line =
     (let trimmed = trim line
      in startsWith trimmed (js ''--'') \<or> regexTest salutationRe trimmed)"

fun scanSignature :: "jsstring list \<Rightarrow> nat \<Rightarrow> nat option" where
  "scanSignature lines 0 = None"
| "scanSignature lines (Suc i) =
     (if isSignatureLine (lines ! i) then Some i else scanSignature lines i)"

definition dropSignature :: "jsstring list \<Rightarrow> jsstring list" where
  "dropSignature lines =
     (case scanSignature lines (length lines) of None \<Rightarrow> lines | Some i \<Rightarrow> take i lines)"

text \<open>
  The files differ in the filter that follows. src/email-processor.js:
  \<^verbatim>\<open>
    const cleanedLines = lines.filter(line => {
      const trimmed = line.trim();
      if (/\b[A-Za-z0-9._%+-]+@[A-Za-z0-9.-]+\.[A-Z]{2,}\b/i.test(trimmed)) return false;
      if (/\b\d{3}-\d{3}-\d{4}\b/.test(trimmed)) return false;
      if (/https?:\/\/[^\s]+/.test(trimmed)) return false;
      return true;
    });
    return normalizeWhitespace(cleanedLines.join('\n'));
  \<close>
  src/gmail-auth.js:
  \<^verbatim>\<open>
    const cleanedLines = lines.filter(line => line.trim().length > 0);
    return normalizeWhitespace(cleanedLines.join('\n'));
  \<close>
  The prefix \<open>ep_\<close> marks the function of src/email-processor.js, \<open>ga_\<close> the one of
  src/gmail-auth.js.
\<close>

definition hasContactInfo :: "jsstring \<Rightarrow> bool" where
  "hasContactInfo line =
     (let trimmed = trim line
      in regexTest emailRe trimmed \<or> regexTest phoneRe trimmed \<or> regexTest urlRe trimmed)"

definition ep_cleanPlainText :: "jsstring \<Rightarrow> jsstring" where
  "ep_cleanPlainText text =
     (if text = [] then []
      else normalizeWhitespace (join [LF]
             (filter (\<lambda>line. \<not> hasContactInfo line) (dropSignature (split LF text)))))"

definition ga_cleanPlainText :: "jsstring \<Rightarrow> jsstring" where
  "ga_cleanPlainText text =
     (if text = [] then []
      else normalizeWhitespace (join [LF]
             (filter (\<lambda>line. length (trim line) > 0) (dropSignature (split LF text)))))"

text \<open>The equations that evaluate the functions above on a concrete text.\<close>

lemmas ev = regexTest_def salutationRe_def Plus_def Opt_def Chr_def ChrI_def Lit_def LitI_def js_def
  foldCase_def isSpace_def wordBefore_def wordAfter_def isWordChar_def Let_def
  emailRe_def phoneRe_def urlRe_def startsWith_def split.simps isSignatureLine_def
  dropSignature_def hasContactInfo_def ep_cleanPlainText_def ga_cleanPlainText_def
  normalizeWhitespace_runs trim_def isDigit_def isAsciiLetter_def


text \<open>
  The specification's reading of the delimiter, for comparison: a line that is exactly
  \<open>--\<close> or matches the salutation pattern; and what it promises for a text without such a
  line: blank lines removed, white space normalised.
\<close>

definition spec_isDelimiterLine :: "jsstring \<Rightarrow> bool" where
  "spec_isDelimiterLine line = (trim line = js ''--'' \<or> regexTest salutationRe (trim line))"

definition spec_passThrough :: "jsstring \<Rightarrow> jsstring" where
  "spec_passThrough text =
     normalizeWhitespace (join [LF] (filter (\<lambda>line. length (trim line) > 0) (split LF text)))"

subsection \<open>Where the signature starts\<close>

lemma scanSignature_None:
  "scanSignature lines n = None \<longleftrightarrow> (\<forall>j<n. \<not> isSignatureLine (lines ! j))"
  by (induction n) (auto simp: less_Suc_eq)

lemma scanSignature_Some:
  "scanSignature lines n = Some i \<longleftrightarrow>
     i < n \<and> isSignatureLine (lines ! i) \<and> (\<forall>j. i < j \<and> j < n \<longrightarrow> \<not> isSignatureLine (lines ! j))"
proof (induction n)
  case 0
  show ?case by simp
next
  case (Suc n)
  show ?case
  proof (cases "isSignatureLine (lines ! n)")
    case True
    have "i = n" if "i < Suc n" "\<forall>j. i < j \<and> j < Suc n \<longrightarrow> \<not> isSignatureLine (lines ! j)"
    proof (rule ccontr)
      assume "i \<noteq> n"
      with that(1) have "i < n" by simp
      with that(2) True show False by auto
    qed
    with True show ?thesis by auto
  next
    case False
    have "(\<forall>j. i < j \<and> j < Suc n \<longrightarrow> \<not> isSignatureLine (lines ! j))
          = (\<forall>j. i < j \<and> j < n \<longrightarrow> \<not> isSignatureLine (lines ! j))"
      using False by (auto simp: less_Suc_eq)
    moreover have "i \<noteq> n" if "isSignatureLine (lines ! i)" using that False by auto
    ultimately show ?thesis using False Suc by (auto simp: less_Suc_eq)
  qed
qed

lemma dropSignature_cases:
  "(dropSignature lines = lines \<and> (\<forall>l \<in> set lines. \<not> isSignatureLine l))
   \<or> (\<exists>i < length lines. dropSignature lines = take i lines \<and> isSignatureLine (lines ! i)
         \<and> (\<forall>j. i < j \<and> j < length lines \<longrightarrow> \<not> isSignatureLine (lines ! j)))"
proof (cases "scanSignature lines (length lines)")
  case None
  then have "\<forall>j<length lines. \<not> isSignatureLine (lines ! j)" by (simp add: scanSignature_None)
  then have "\<forall>l \<in> set lines. \<not> isSignatureLine l" by (metis in_set_conv_nth)
  with None show ?thesis by (simp add: dropSignature_def)
next
  case (Some i)
  then show ?thesis using scanSignature_Some [of lines "length lines" i]
    by (auto simp: dropSignature_def)
qed

text \<open>
  C6 (amended). For every non-empty plain text, \<open>cleanPlainText\<close> marks the signature
  start at the last line whose trimmed text starts with \<open>--\<close> or matches the
  closing-salutation pattern, and drops that line and every line after it; with no such
  line every line is kept. The kept lines then lose the blank lines (src/gmail-auth.js)
  or the lines holding an e-mail address, a phone number or a URL
  (src/email-processor.js), are joined by line feeds and normalised. In both files
  \<open>Hi team\n\nBest regards,\nJohn\n555-123-4567\<close> cleans to \<open>Hi team\<close>.
\<close>

theorem cleanPlainText_signature:
  assumes "text \<noteq> []"
  shows "ga_cleanPlainText text
           = normalizeWhitespace (join [LF]
               (filter (\<lambda>line. length (trim line) > 0) (dropSignature (split LF text))))
       \<and> ep_cleanPlainText text
           = normalizeWhitespace (join [LF]
               (filter (\<lambda>line. \<not> hasContactInfo line) (dropSignature (split LF text))))
       \<and> ((dropSignature (split LF text) = split LF text
              \<and> (\<forall>l \<in> set (split LF text). \<not> isSignatureLine l))
            \<or> (\<exists>i < length (split LF text).
                  dropSignature (split LF text) = take i (split LF text)
                  \<and> isSignatureLine (split LF text ! i)
                  \<and> (\<forall>j. i < j \<and> j < length (split LF text)
                         \<longrightarrow> \<not> isSignatureLine (split LF text ! j))))
       \<and> (\<forall>line. isSignatureLine line
              = (startsWith (trim line) (js ''--'') \<or> regexTest salutationRe (trim line)))
       \<and> ga_cleanPlainText (js ''Hi team\<newline>\<newline>Best regards,\<newline>John\<newline>555-123-4567'')
           = js ''Hi team''
       \<and> ep_cleanPlainText (js ''Hi team\<newline>\<newline>Best regards,\<newline>John\<newline>555-123-4567'')
           = js ''Hi team''"
proof -
  have g: "ga_cleanPlainText text
           = normalizeWhitespace (join [LF]
               (filter (\<lambda>line. length (trim line) > 0) (dropSignature (split LF text))))"
    using assms by (simp add: ga_cleanPlainText_def)
  have e: "ep_cleanPlainText text
           = normalizeWhitespace (join [LF]
               (filter (\<lambda>line. \<not> hasContactInfo line) (dropSignature (split LF text))))"
    using assms by (simp add: ep_cleanPlainText_def)
  have s: "\<forall>line. isSignatureLine line
              = (startsWith (trim line) (js ''--'') \<or> regexTest salutationRe (trim line))"
    by (simp add: isSignatureLine_def Let_def)
  have x1: "ga_cleanPlainText (js ''Hi team\<newline>\<newline>Best regards,\<newline>John\<newline>555-123-4567'')
           = js ''Hi team''"
    by (simp add: ev)
  have x2: "ep_cleanPlainText (js ''Hi team\<newline>\<newline>Best regards,\<newline>John\<newline>555-123-4567'')
           = js ''Hi team''"
    by (simp add: ev)
  from g e dropSignature_cases [of "split LF text"] s x1 x2 show ?thesis by (intro conjI)
qed

text \<open>
  At a text with two delimiter lines the cut is at the last one, and the first stays in
  the output.
\<close>

theorem cleanPlainText_signature_witness:
  "js ''see you\<newline>-- \<newline>Ann\<newline>--\<newline>Dept. 7'' \<noteq> []
   \<and> ga_cleanPlainText (js ''see you\<newline>-- \<newline>Ann\<newline>--\<newline>Dept. 7'')
       = normalizeWhitespace (join [LF] (filter (\<lambda>line. length (trim line) > 0)
           (take 3 (split LF (js ''see you\<newline>-- \<newline>Ann\<newline>--\<newline>Dept. 7'')))))
   \<and> normalizeWhitespace (join [LF] (filter (\<lambda>line. length (trim line) > 0)
           (take 3 (split LF (js ''see you\<newline>-- \<newline>Ann\<newline>--\<newline>Dept. 7'')))))
       = js ''see you\<newline>-- \<newline>Ann''"
proof -
  let ?x = "js ''see you\<newline>-- \<newline>Ann\<newline>--\<newline>Dept. 7''"
  have ne: "?x \<noteq> []" by (simp add: js_def)
  have d: "dropSignature (split LF ?x) = take 3 (split LF ?x)"
    by (simp add: ev)
  from cleanPlainText_signature [OF ne]
  have "ga_cleanPlainText ?x
      = normalizeWhitespace (join [LF]
          (filter (\<lambda>line. length (trim line) > 0) (dropSignature (split LF ?x))))"
    by (rule conjunct1)
  then have g: "ga_cleanPlainText ?x
      = normalizeWhitespace (join [LF]
          (filter (\<lambda>line. length (trim line) > 0) (take 3 (split LF ?x))))"
    by (simp only: d)
  have v: "normalizeWhitespace (join [LF]
          (filter (\<lambda>line. length (trim line) > 0) (take 3 (split LF ?x))))
       = js ''see you\<newline>-- \<newline>Ann''"
    by (simp add: ev)
  from ne g v show ?thesis by (intro conjI)
qed

text \<open>
  The claim as the specification words it (the delimiter is a line that is exactly \<open>--\<close>)
  fails at \<open>hello\n--x\nworld\<close>: no line of it is exactly \<open>--\<close> or a salutation, so the text
  should pass through, and both files cut it at \<open>--x\<close>.
\<close>

theorem cleanPlainText_exact_delimiter_counterexample:
  "filter spec_isDelimiterLine (split LF (js ''hello\<newline>--x\<newline>world'')) = []
   \<and> spec_passThrough (js ''hello\<newline>--x\<newline>world'') = js ''hello\<newline>--x\<newline>world''
   \<and> ga_cleanPlainText (js ''hello\<newline>--x\<newline>world'') = js ''hello''
   \<and> ep_cleanPlainText (js ''hello\<newline>--x\<newline>world'') = js ''hello''"
  by (simp add: ev spec_isDelimiterLine_def spec_passThrough_def)


section \<open>The line filter (\<open>filterBoilerplateLines\<close>)\<close>

text \<open>
  \<open>s.toLowerCase()\<close>. The model maps \<open>A\<close> to \<open>Z\<close> to \<open>a\<close> to \<open>z\<close>, the Kelvin sign U+212A
  to \<open>k\<close> and U+0130 to \<open>i\<close> followed by U+0307, as JavaScript does, and leaves every other
  code unit alone. JavaScript maps the remaining upper-case letters to other code units
  outside ASCII and outside the white space; what is tested on the lower-cased line
  (ASCII keywords, the classes \<open>[^a-zA-Z]\<close>, \<open>\w\<close> and \<open>\s\<close>) cannot tell those from the
  originals, and the lines that are returned are the original ones.
\<close>

definition lowerUnit :: "jschar \<Rightarrow> jsstring" where
  "lowerUnit c = (if 65 \<le> c \<and> c \<le> 90 then [c + 32]
                  else if c = 0x212A then [107]
                  else if c = 0x130 then [105, 0x307]
                  else [c])"

definition toLowerCase :: "jsstring \<Rightarrow> jsstring" where
  "toLowerCase s = concat (map lowerUnit s)"

text \<open>\<open>s.includes(sub)\<close>.\<close>

fun includes_str :: "jsstring \<Rightarrow> jsstring \<Rightarrow> bool" where
  "includes_str [] sub = (sub = [])"
| "includes_str (c # s) sub = (startsWith (c # s) sub \<or> includes_str s sub)"

text \<open>
  src/gmail-auth.js:
  \<^verbatim>\<open>
  function filterBoilerplateLines(text) {
    const footerKeywords = [
      'unsubscribe', 'privacy policy', 'terms and conditions',
      'view in browser', 'sent from my', 'this email was sent by', 'copyright',
      'all rights reserved'
    ];
    return text
      .split('\n')
      .map(line => line.trim())
      .filter(line => {
        if (line.length < 5) return false; // Skip very short lines
        const lowerLine = line.toLowerCase();
        if (footerKeywords.some(keyword => lowerLine.includes(keyword))) {
          return line.length > 100 ||
            !(/^[^a-zA-Z]*(\w+\s+){0,4}(unsubscribe|privacy|copyright)/).test(lowerLine);
        }
        return true;
      })
      .join('\n');
  }
  \<close>
  src/email-processor.js has \<open>'contact us'\<close> as a further keyword and the filter
  \<^verbatim>\<open>
      .filter(line => {
        if (line.length < 5) return false; // Skip very short lines
        const lowerLine = line.toLowerCase();
        if (footerKeywords.some(keyword => lowerLine.includes(keyword))) return false;
        if (/\b[A-Za-z0-9._%+-]+@[A-Za-z0-9.-]+\.[A-Z]{2,}\b/i.test(line)) return false;
        if (/\b\d{3}-\d{3}-\d{4}\b/.test(line)) return false;
        if (/https?:\/\/[^\s]+/.test(line)) return false;
        return true;
      })
      .join('\n')
      .trim();
  \<close>
  \<open>(\w+\s+){0,4}\<close> is written out as four nested optional groups.
\<close>

definition ga_footerKeywords :: "jsstring list" where
  "ga_footerKeywords = [js ''unsubscribe'', js ''privacy policy'', js ''terms and conditions'',
     js ''view in browser'', js ''sent from my'', js ''this email was sent by'', js ''copyright'',
     js ''all rights reserved'']"

definition ep_footerKeywords :: "jsstring list" where
  "ep_footerKeywords = [js ''unsubscribe'', js ''privacy policy'', js ''terms and conditions'',
     js ''contact us'', js ''view in browser'', js ''sent from my'', js ''this email was sent by'',
     js ''copyright'', js ''all rights reserved'']"

definition prefixRe :: re where
  "prefixRe =
     (let word = Seq (Plus (Cls isWordChar)) (Plus (Cls isSpace))
      in Seqs [Bol, Star (Cls (\<lambda>c. \<not> isAsciiLetter c)),
               Opt (Seq word (Opt (Seq word (Opt (Seq word (Opt word)))))),
               Alts [Lit ''unsubscribe'', Lit ''privacy'', Lit ''copyright'']])"

definition ga_hasKeyword :: "jsstring \<Rightarrow> bool" where
  "ga_hasKeyword line = list_ex (\<lambda>keyword. includes_str (toLowerCase line) keyword) ga_footerKeywords"

definition ep_hasKeyword :: "jsstring \<Rightarrow> bool" where
  "ep_hasKeyword line = list_ex (\<lambda>keyword. includes_str (toLowerCase line) keyword) ep_footerKeywords"

definition ga_keepLine :: "jsstring \<Rightarrow> bool" where
  "ga_keepLine line =
     (if length line < 5 then False
      else if ga_hasKeyword line
           then length line > 100 \<or> \<not> regexTest prefixRe (toLowerCase line)
      else True)"

definition ga_filterBoilerplateLines :: "jsstring \<Rightarrow> jsstring" where
  "ga_filterBoilerplateLines text =
     join [LF] (filter ga_keepLine (map trim (split LF text)))"

definition ep_keepLine :: "jsstring \<Rightarrow> bool" where
  "ep_keepLine line =
     (if length line < 5 then False
      else if ep_hasKeyword line then False
      else if regexTest emailRe line then False
      else if regexTest phoneRe line then False
      else if regexTest urlRe line then False
      else True)"

definition ep_filterBoilerplateLines :: "jsstring \<Rightarrow> jsstring" where
  "ep_filterBoilerplateLines text =
     trim (join [LF] (filter ep_keepLine (map trim (split LF text))))"

text \<open>The equations that evaluate the filters on a concrete text.\<close>

lemmas ev7 = ev lowerUnit_def toLowerCase_def ga_footerKeywords_def ep_footerKeywords_def prefixRe_def
  ga_hasKeyword_def ep_hasKeyword_def ga_keepLine_def ga_filterBoilerplateLines_def ep_keepLine_def
  ep_filterBoilerplateLines_def


subsection \<open>The lines of the output\<close>

lemma split_last: "sep \<notin> set x \<Longrightarrow> split sep x = [x]"
proof -
  assume a: "sep \<notin> set x"
  then have d: "dropWhile (\<lambda>c. c \<noteq> sep) x = []" by auto
  show ?thesis by (subst split.simps) (simp only: d list.case)
qed

lemma split_cons: "sep \<notin> set x \<Longrightarrow> split sep (x @ sep # rest) = x # split sep rest"
proof -
  assume a: "sep \<notin> set x"
  then have d: "dropWhile (\<lambda>c. c \<noteq> sep) (x @ sep # rest) = sep # rest"
    by (auto simp: dropWhile_append3)
  from a have t: "takeWhile (\<lambda>c. c \<noteq> sep) (x @ sep # rest) = x"
    by (auto simp: takeWhile_tail)
  show ?thesis by (subst split.simps) (simp only: d t list.case)
qed

lemma split_join:
  "xs \<noteq> [] \<Longrightarrow> \<forall>x \<in> set xs. sep \<notin> set x \<Longrightarrow> split sep (join [sep] xs) = xs"
proof (induction "[sep]" xs rule: join.induct)
  case 1
  then show ?case by simp
next
  case (2 x)
  then show ?case by (simp add: split_last)
next
  case (3 x y ys)
  then show ?case by (simp add: split_cons)
qed

lemma split_pieces: "x \<in> set (split sep s) \<Longrightarrow> sep \<notin> set x"
proof (induction sep s arbitrary: x rule: split.induct)
  case (1 sep s)
  show ?case
  proof (cases "dropWhile (\<lambda>c. c \<noteq> sep) s")
    case Nil
    then have "split sep s = [s]" by (subst split.simps) (simp only: list.case)
    moreover from Nil have "sep \<notin> set s" by auto
    ultimately show ?thesis using 1(2) by simp
  next
    case (Cons d rest)
    then have sp: "split sep s = takeWhile (\<lambda>c. c \<noteq> sep) s # split sep rest"
      by (subst split.simps) (simp only: list.case)
    have "sep \<notin> set (takeWhile (\<lambda>c. c \<noteq> sep) s)" by (auto dest: set_takeWhileD)
    with sp 1(1) [OF Cons] 1(2) show ?thesis by auto
  qed
qed

lemma set_trim: "set (trim s) \<subseteq> set s"
proof -
  have "set (trim s) \<subseteq> set (dropWhile isSpace s)"
    unfolding trim_def using set_dropWhileD by fastforce
  also have "\<dots> \<subseteq> set s" using set_dropWhileD by fastforce
  finally show ?thesis .
qed

lemma ga_output_lines:
  assumes "filter ga_keepLine (map trim (split LF text)) \<noteq> []"
  shows "split LF (ga_filterBoilerplateLines text) = filter ga_keepLine (map trim (split LF text))"
proof -
  have "\<forall>x \<in> set (filter ga_keepLine (map trim (split LF text))). LF \<notin> set x"
    using split_pieces set_trim by fastforce
  with assms show ?thesis by (simp add: ga_filterBoilerplateLines_def split_join)
qed

text \<open>
  C7 (amended). In src/gmail-auth.js a (trimmed) line that contains a boilerplate keyword
  is dropped only when it is shorter than 5 code units, or at most 100 long and matching
  the boilerplate prefix pattern; every keyword line of at least 5 code units that is
  longer than 100 or does not match the prefix pattern is a line of the output. In
  src/email-processor.js every line that contains a keyword is dropped, whatever its
  length and its prefix.
\<close>

theorem filterBoilerplateLines_keyword_lines:
  "(line \<in> set (map trim (split LF text)) \<and> ga_hasKeyword line \<and> 5 \<le> length line
      \<and> (100 < length line \<or> \<not> regexTest prefixRe (toLowerCase line))
      \<longrightarrow> line \<in> set (split LF (ga_filterBoilerplateLines text)))
   \<and> (line \<in> set (map trim (split LF text)) \<and> ga_hasKeyword line
        \<and> line \<notin> set (split LF (ga_filterBoilerplateLines text))
      \<longrightarrow> length line < 5 \<or> (length line \<le> 100 \<and> regexTest prefixRe (toLowerCase line)))
   \<and> ep_filterBoilerplateLines text
        = trim (join [LF] (filter ep_keepLine (map trim (split LF text))))
   \<and> (ep_hasKeyword line \<longrightarrow> \<not> ep_keepLine line
        \<and> line \<notin> set (filter ep_keepLine (map trim (split LF text))))"
proof -
  have keep: "line \<in> set (split LF (ga_filterBoilerplateLines text))"
    if "line \<in> set (map trim (split LF text))" "ga_keepLine line"
  proof -
    from that have m: "line \<in> set (filter ga_keepLine (map trim (split LF text)))" by simp
    then have "filter ga_keepLine (map trim (split LF text)) \<noteq> []"
      by (metis empty_iff empty_set)
    from ga_output_lines [OF this] m show ?thesis by simp
  qed
  have k: "ga_keepLine line"
    if "ga_hasKeyword line" "5 \<le> length line"
       "100 < length line \<or> \<not> regexTest prefixRe (toLowerCase line)"
    using that by (auto simp: ga_keepLine_def)
  have a: "line \<in> set (map trim (split LF text)) \<and> ga_hasKeyword line \<and> 5 \<le> length line
      \<and> (100 < length line \<or> \<not> regexTest prefixRe (toLowerCase line))
      \<longrightarrow> line \<in> set (split LF (ga_filterBoilerplateLines text))"
    using keep k by blast
  have b: "line \<in> set (map trim (split LF text)) \<and> ga_hasKeyword line
        \<and> line \<notin> set (split LF (ga_filterBoilerplateLines text))
      \<longrightarrow> length line < 5 \<or> (length line \<le> 100 \<and> regexTest prefixRe (toLowerCase line))"
  proof (intro impI)
    assume h: "line \<in> set (map trim (split LF text)) \<and> ga_hasKeyword line
        \<and> line \<notin> set (split LF (ga_filterBoilerplateLines text))"
    then have "\<not> ga_keepLine line" using keep by blast
    with h show "length line < 5 \<or> (length line \<le> 100 \<and> regexTest prefixRe (toLowerCase line))"
      by (auto simp: ga_keepLine_def split: if_splits)
  qed
  have c: "ep_filterBoilerplateLines text
        = trim (join [LF] (filter ep_keepLine (map trim (split LF text))))"
    by (simp add: ep_filterBoilerplateLines_def)
  have d: "ep_hasKeyword line \<longrightarrow> \<not> ep_keepLine line
        \<and> line \<notin> set (filter ep_keepLine (map trim (split LF text)))"
    by (simp add: ep_keepLine_def)
  from a b c d show ?thesis by (intro conjI)
qed

text \<open>A line of 113 code units that mentions a keyword amid real content.\<close>

definition longLine :: jsstring where
  "longLine = js ''Our legal team reviewed the copyright terms of the new supplier agreement and found nothing that needs to change.''"

theorem filterBoilerplateLines_keyword_lines_witness:
  "longLine \<in> set (map trim (split LF (js ''Hello,\<newline>'' @ longLine @ js ''\<newline>Bye'')))
   \<and> ga_hasKeyword longLine \<and> 5 \<le> length longLine \<and> 100 < length longLine
   \<and> longLine \<in> set (split LF (ga_filterBoilerplateLines (js ''Hello,\<newline>'' @ longLine @ js ''\<newline>Bye'')))"
proof -
  let ?t = "js ''Hello,\<newline>'' @ longLine @ js ''\<newline>Bye''"
  have m: "longLine \<in> set (map trim (split LF ?t))" by (simp add: longLine_def ev)
  have h: "ga_hasKeyword longLine" by (simp add: longLine_def ev7)
  have n: "5 \<le> length longLine" "100 < length longLine" by (simp_all add: longLine_def js_def)
  from filterBoilerplateLines_keyword_lines [of longLine ?t] m h n
  have "longLine \<in> set (split LF (ga_filterBoilerplateLines ?t))" by blast
  with m h n show ?thesis by (intro conjI)
qed

text \<open>
  The claim fails for the filter of src/email-processor.js: the line is long, does not
  match the prefix pattern, and is dropped for its keyword.
\<close>

theorem filterBoilerplateLines_email_processor_counterexample:
  "100 < length longLine \<and> ep_hasKeyword longLine
   \<and> \<not> regexTest prefixRe (toLowerCase longLine)
   \<and> ep_filterBoilerplateLines (js ''Hello,\<newline>'' @ longLine @ js ''\<newline>Goodbye'')
       = js ''Hello,\<newline>Goodbye''"
  by (simp add: longLine_def ev7)

section \<open>The document tree and \<open>removeBoilerplate\<close>\<close>

text \<open>
  \<open>removeBoilerplate\<close> works on the document that \<open>cheerio.load\<close> built. The document is
  the list of the root's children; a node is a text node, a comment (or any other node
  that is neither text nor element) or an element with its tag name (in lower case, as the
  HTML parser stores it), its attributes and its children.

  The cheerio calls of the source are modelled on this tree:
  \<^item> \<open>$(el).text()\<close> is the concatenation of the text nodes below \<open>el\<close>;
  \<^item> \<open>$(selector).remove()\<close> detaches every selected element from its parent
    (\<open>remove_where\<close>: the selection is made before anything is detached, and only elements
    are ever selected);
  \<^item> \<open>$(selector).nextAll().remove()\<close> detaches the siblings that follow a selected
    element and are elements themselves: \<open>nextAll\<close> returns elements only, text nodes and
    comments are not part of the selection (\<open>remove_nextAll\<close>);
  \<^item> \<open>$(selector).parent().remove()\<close> detaches the elements that have a selected
    element among their children (the root is no element and is never selected);
  \<^item> a class selector \<open>.name\<close> selects the elements whose \<open>class\<close> attribute has
    \<open>name\<close> between white space or the ends of the value, \<open>a[href*="s"]\<close> the \<open>a\<close>
    elements whose \<open>href\<close> attribute contains \<open>s\<close>, \<open>*\<close> every element.
\<close>

datatype node = Text jsstring | Comment jsstring
  | Element (tagName: jsstring) (attribs: "(jsstring \<times> jsstring) list") (children: "node list")

fun isElement :: "node \<Rightarrow> bool" where
  "isElement (Element t a cs) = True"
| "isElement n = False"

fun isTag :: "jsstring \<Rightarrow> node \<Rightarrow> bool" where
  "isTag name (Element t a cs) = (t = name)"
| "isTag name n = False"

fun attr :: "node \<Rightarrow> jsstring \<Rightarrow> jsstring option" where
  "attr (Element t a cs) name = map_of a name"
| "attr n name = None"

fun text_of :: "node \<Rightarrow> jsstring" where
  "text_of (Text s) = s"
| "text_of (Comment s) = []"
| "text_of (Element t a cs) = concat (map text_of cs)"

fun remove_where :: "(node \<Rightarrow> bool) \<Rightarrow> node list \<Rightarrow> node list" where
  "remove_where sel [] = []"
| "remove_where sel (Element t a cs # ns) =
     (if sel (Element t a cs) then remove_where sel ns
      else Element t a (remove_where sel cs) # remove_where sel ns)"
| "remove_where sel (n # ns) = n # remove_where sel ns"

fun remove_nextAll :: "(node \<Rightarrow> bool) \<Rightarrow> node list \<Rightarrow> node list" where
  "remove_nextAll sel [] = []"
| "remove_nextAll sel (Element t a cs # ns) =
     Element t a (remove_nextAll sel cs)
       # (if sel (Element t a cs) then filter (\<lambda>n. \<not> isElement n) ns
          else remove_nextAll sel ns)"
| "remove_nextAll sel (n # ns) = n # remove_nextAll sel ns"

text \<open>
  \<^verbatim>\<open>
  function removeBoilerplate($) {
    $('.footer, .email-footer, .signature, .legal, .disclaimer, .footer-container,
       .email-bottom, .message-signature, .legal-notice').remove();
    $('*').each((i, el) => {
      const text = $(el).text().toLowerCase();
      if (text.includes('unsubscribe') || text.includes('privacy policy') ||
          text.includes('terms and conditions') ||
          text.includes('you received this email because') ||
          text.includes('view in browser') || text.includes('sent from my') ||
          text.includes('this email was sent by') || text.includes('copyright') ||
          text.includes('all rights reserved')) {
        $(el).remove();
      }
    });
    $('a[href*="unsubscribe"], a[href*="privacy"], a[href*="terms"]').parent().remove();
    // Remove content after horizontal rules (common signature separator)
    $('hr').nextAll().remove();
    $('hr').remove();
  }
  \<close>
  In the \<open>each\<close> loop an element is visited before its descendants, and what was detached
  before it is visited lies outside its subtree, so the text it is tested with is its text
  before the loop.
\<close>

definition boilerplateClasses :: "jsstring list" where
  "boilerplateClasses = [js ''footer'', js ''email-footer'', js ''signature'', js ''legal'',
     js ''disclaimer'', js ''footer-container'', js ''email-bottom'', js ''message-signature'',
     js ''legal-notice'']"

definition hasClass :: "jsstring \<Rightarrow> node \<Rightarrow> bool" where
  "hasClass name n =
     (case attr n (js ''class'') of
        None \<Rightarrow> False
      | Some v \<Rightarrow> regexTest (Seqs [Alt Bol (Cls isSpace), Seqs (map Chr name),
                                 Alt Eol (Cls isSpace)]) v)"

definition hasBoilerplateClass :: "node \<Rightarrow> bool" where
  "hasBoilerplateClass n = list_ex (\<lambda>name. hasClass name n) boilerplateClasses"

definition domKeywords :: "jsstring list" where
  "domKeywords = [js ''unsubscribe'', js ''privacy policy'', js ''terms and conditions'',
     js ''you received this email because'', js ''view in browser'', js ''sent from my'',
     js ''this email was sent by'', js ''copyright'', js ''all rights reserved'']"

definition textHasKeyword :: "node \<Rightarrow> bool" where
  "textHasKeyword el =
     (let text = toLowerCase (text_of el)
      in list_ex (\<lambda>keyword. includes_str text keyword) domKeywords)"

definition isFooterLink :: "node \<Rightarrow> bool" where
  "isFooterLink n =
     (isTag (js ''a'') n \<and>
      (case attr n (js ''href'') of
         None \<Rightarrow> False
       | Some v \<Rightarrow> includes_str v (js ''unsubscribe'') \<or> includes_str v (js ''privacy'')
                    \<or> includes_str v (js ''terms'')))"

definition hasFooterLinkChild :: "node \<Rightarrow> bool" where
  "hasFooterLinkChild n = (case n of Element t a cs \<Rightarrow> list_ex isFooterLink cs | _ \<Rightarrow> False)"

definition removeHorizontalRules :: "node list \<Rightarrow> node list" where
  "removeHorizontalRules doc =
     remove_where (isTag (js ''hr'')) (remove_nextAll (isTag (js ''hr'')) doc)"

definition removeBoilerplate :: "node list \<Rightarrow> node list" where
  "removeBoilerplate doc =
     (let d1 = remove_where hasBoilerplateClass doc;
          d2 = remove_where textHasKeyword d1;
          d3 = remove_where hasFooterLinkChild d2
      in removeHorizontalRules d3)"



text \<open>
  The specification's reading, for comparison: the first \<open>hr\<close> in document order and
  everything after it in document order goes. \<open>spec_cutNodes\<close> returns the nodes that stay
  and whether the \<open>hr\<close> was met.
\<close>

fun spec_cutNodes :: "node list \<Rightarrow> node list \<times> bool" where
  "spec_cutNodes [] = ([], False)"
| "spec_cutNodes (Element t a cs # ns) =
     (if t = js ''hr'' then ([], True)
      else (case spec_cutNodes cs of
              (cs', True) \<Rightarrow> ([Element t a cs'], True)
            | (cs', False) \<Rightarrow> (case spec_cutNodes ns of (ns', found) \<Rightarrow> (Element t a cs' # ns', found))))"
| "spec_cutNodes (n # ns) = (case spec_cutNodes ns of (ns', found) \<Rightarrow> (n # ns', found))"

definition spec_cutAtFirstRule :: "node list \<Rightarrow> node list" where
  "spec_cutAtFirstRule doc = fst (spec_cutNodes doc)"

text \<open>
  Two documents: the one \<open>cheerio.load\<close> builds for the specification's example
  \<open><p>Hello</p><hr><p>Unsubscribe here</p>\<close>, and one where the \<open>hr\<close> lies inside a \<open>div\<close>
  and is followed by an element, by text, and by a paragraph outside the \<open>div\<close>.
\<close>

definition el :: "string \<Rightarrow> node list \<Rightarrow> node" where
  "el t cs = Element (js t) [] cs"

definition exampleDoc :: "node list" where
  "exampleDoc = [el ''html'' [el ''head'' [],
     el ''body'' [el ''p'' [Text (js ''Hello'')], el ''hr'' [], el ''p'' [Text (js ''Unsubscribe here'')]]]]"

definition nestedDoc :: "node list" where
  "nestedDoc = [el ''html'' [el ''head'' [],
     el ''body'' [el ''div'' [el ''p'' [Text (js ''Hello'')], el ''hr'' [],
                              el ''p'' [Text (js ''Ann'')], Text (js ''Sales'')],
                  el ''p'' [Text (js ''Postscript'')]]]]"

text \<open>The equations that evaluate \<open>removeBoilerplate\<close> on a concrete document.\<close>

lemmas evd = ev7 removeBoilerplate_def removeHorizontalRules_def spec_cutAtFirstRule_def el_def exampleDoc_def nestedDoc_def hasFooterLinkChild_def
  isFooterLink_def textHasKeyword_def domKeywords_def hasBoilerplateClass_def hasClass_def
  boilerplateClasses_def


subsection \<open>What the horizontal-rule statements remove\<close>







section \<open>HTML cleaning (\<open>enhancedCleanEmailContent\<close>)\<close>

text \<open>
  The expressions of the cleaning pipeline. The back-reference of
  \<^verbatim>\<open>/<(script|style|noscript)[^>]*>[\s\S]*?<\/\1>/gi\<close> is written out as one alternative
  per tag name; \<open>{50,}\<close> and \<open>{5,}\<close> are that many copies followed by a star.
\<close>

definition nonSpace :: re where "nonSpace = Cls (\<lambda>c. \<not> isSpace c)"
definition alnum :: re where "alnum = Cls (\<lambda>c. isAsciiLetter c \<or> isDigit c)"
definition httpPrefix :: re where "httpPrefix = Seqs [Lit ''http'', Opt (Chr 115), Lit ''://'']"

definition scriptBlockRe :: "string \<Rightarrow> re" where
  "scriptBlockRe name = Seqs [Chr 60, LitI name, Star (Cls (\<lambda>c. c \<noteq> 62)), Chr 62,
      LazyStar (Cls (\<lambda>c. True)), Lit ''</'', LitI name, Chr 62]"

definition removeScriptAndStyle :: "jsstring \<Rightarrow> jsstring" where
  "removeScriptAndStyle html =
     replaceAll (Alts [scriptBlockRe ''script'', scriptBlockRe ''style'', scriptBlockRe ''noscript''])
       (js '' '') html"

text \<open>
  \<open>decodeHTMLEntities\<close> as the source has it: the first expression is U+00C2 (or, under
  the \<open>i\<close> flag, U+00E2) followed by U+00A0, and the other four replace the code units
  \<open>&\<close>, \<open>"\<close>, \<open><\<close> and \<open>>\<close> by themselves.
  \<^verbatim>\<open>
  return text.replace(/\u00c2\u00a0/gi, ' ').replace(/&/gi, '&').replace(/"/gi, '"')
             .replace(/</gi, '<').replace(/>/gi, '>');
  \<close>
\<close>

definition decodeHTMLEntities :: "jsstring \<Rightarrow> jsstring" where
  "decodeHTMLEntities text =
     replaceAll (Chr 62) [62] (replaceAll (Chr 60) [60] (replaceAll (Chr 34) [34]
       (replaceAll (Chr 38) [38]
         (replaceAll (Seq (Cls (\<lambda>c. c = 0xC2 \<or> c = 0xE2)) (Chr 0xA0)) (js '' '') text))))"

text \<open>
  \<^verbatim>\<open>
  /https?:\/\/[^\s]+?(?:\?utm_[^\s]+|click[^\s]+|link\.[^\s]+)/g
  /https?:\/\/[^\s]{50,}/g
  /https?:\/\/[^\/\s]+\/(track|click|open|view)[^\s]*/g
  /https?:\/\/[^\s]+\/(e|t)\/[a-zA-Z0-9]{5,}[^\s]*/g
  /\[\s*\[\s*\[/g     /\]\s*\]\s*\]/g
  /\u200c|\u200b|\u200d|\u200e|\u200f|\u2060|\ufeff/g
  /[\u200B-\u200D\u2060\uFEFF\u00A0\u1680\u180E\u2000-\u200A\u202F\u205F\u3000]+/g
  /\n{3,}/g
  /\d+\s+[A-Za-z\s]+,\s+[A-Za-z\s]+,\s+[A-Z]{2}\s+\d{5}(-\d{4})?/g
  \<close>
\<close>

definition utmLinkRe :: re where
  "utmLinkRe = Seqs [httpPrefix, nonSpace, LazyStar nonSpace,
     Alts [Seq (Lit ''?utm_'') (Plus nonSpace), Seq (Lit ''click'') (Plus nonSpace),
           Seq (Lit ''link.'') (Plus nonSpace)]]"

fun Rep :: "nat \<Rightarrow> re \<Rightarrow> re" where
  "Rep 0 r = Eps"
| "Rep (Suc n) r = Seq r (Rep n r)"

lemma Rep_numeral: "Rep (numeral k) r = Seq r (Rep (pred_numeral k) r)"
  by (simp add: numeral_eq_Suc)

definition longUrlRe :: re where
  "longUrlRe = Seqs [httpPrefix, Rep 50 nonSpace, Star nonSpace]"

definition trackPathRe :: re where
  "trackPathRe = Seqs [httpPrefix, Plus (Cls (\<lambda>c. c \<noteq> 47 \<and> \<not> isSpace c)), Chr 47,
     Alts [Lit ''track'', Lit ''click'', Lit ''open'', Lit ''view''], Star nonSpace]"

definition hashLinkRe :: re where
  "hashLinkRe = Seqs [httpPrefix, Plus nonSpace, Chr 47, Alt (Chr 101) (Chr 116), Chr 47,
     alnum, alnum, alnum, alnum, alnum, Star alnum, Star nonSpace]"

definition openBracketsRe :: re where
  "openBracketsRe = Seqs [Chr 91, Star (Cls isSpace), Chr 91, Star (Cls isSpace), Chr 91]"

definition closeBracketsRe :: re where
  "closeBracketsRe = Seqs [Chr 93, Star (Cls isSpace), Chr 93, Star (Cls isSpace), Chr 93]"

definition zeroWidthRe :: re where
  "zeroWidthRe = Cls (\<lambda>c. c \<in> {0x200C, 0x200B, 0x200D, 0x200E, 0x200F, 0x2060, 0xFEFF})"

definition invisibleRe :: re where
  "invisibleRe = Plus (Cls (\<lambda>c. (0x200B \<le> c \<and> c \<le> 0x200D) \<or> (0x2000 \<le> c \<and> c \<le> 0x200A)
       \<or> c \<in> {0x2060, 0xFEFF, 0xA0, 0x1680, 0x180E, 0x202F, 0x205F, 0x3000}))"

definition blankLinesRe :: re where
  "blankLinesRe = Seqs [Chr LF, Chr LF, Chr LF, Star (Chr LF)]"

definition addressRe :: re where
  "addressRe =
     (let letters = Plus (Cls (\<lambda>c. isAsciiLetter c \<or> isSpace c));
          upper = Cls (\<lambda>c. 65 \<le> c \<and> c \<le> 90);
          digit = Cls isDigit
      in Seqs [Plus digit, Plus (Cls isSpace), letters, Chr COMMA, Plus (Cls isSpace), letters,
               Chr COMMA, Plus (Cls isSpace), upper, upper, Plus (Cls isSpace),
               digit, digit, digit, digit, digit,
               Opt (Seqs [Chr 45, digit, digit, digit, digit])])"

text \<open>
  \<^verbatim>\<open>
  const halfLength = Math.floor(text.length / 2);
  if (halfLength > 100) {
    const firstHalf = text.substring(0, halfLength);
    const secondHalf = text.substring(halfLength);
    if (secondHalf.includes(firstHalf.substring(0, 80))) {   // 150 in src/gmail-auth.js
      text = firstHalf;
    }
  }
  \<close>
\<close>

definition dropDuplicate :: "nat \<Rightarrow> jsstring \<Rightarrow> jsstring" where
  "dropDuplicate n text =
     (let halfLength = length text div 2
      in if halfLength > 100
         then (let firstHalf = take halfLength text; secondHalf = drop halfLength text
               in if includes_str secondHalf (take n firstHalf) then firstHalf else text)
         else text)"

text \<open>
  The HTML parser, the serialiser and the converter to plain text are libraries (cheerio,
  html-to-text) and not part of the repository; they are parameters of the model:
  \<open>cheerio.load(html)\<close>, \<open>$.html()\<close> and \<open>convert(html, {wordwrap: false, ignoreImage: true,
  preserveNewlines: true})\<close>.
  \<^verbatim>\<open>
  let cleanedHtml = removeScriptAndStyle(html);
  const $ = cheerio.load(cleanedHtml);
  removeBoilerplate($);
  cleanedHtml = $.html();
  let text = convertHTMLToText(cleanedHtml);
  \<close>
\<close>

record htmlLib =
  cheerio_load :: "jsstring \<Rightarrow> node list"
  cheerio_html :: "node list \<Rightarrow> jsstring"
  convert :: "jsstring \<Rightarrow> jsstring"

definition cleanedDocumentText :: "htmlLib \<Rightarrow> jsstring \<Rightarrow> jsstring" where
  "cleanedDocumentText L html =
     convert L (cheerio_html L (removeBoilerplate (cheerio_load L (removeScriptAndStyle html))))"

text \<open>
  The text stages, each a statement \<open>text = stage(text)\<close> of the source in this order,
  then the duplicate detection. src/email-processor.js ends with
  \<^verbatim>\<open>
  if (text.length > 2000) {
    text = text.substring(0, 2000) + '...';
  }
  \<close>
  (the warning that follows does not change the result); src/gmail-auth.js has neither
  this statement nor the long-URL and the postal-address stage.
\<close>

definition ep_cleanText :: "jsstring \<Rightarrow> jsstring" where
  "ep_cleanText text0 =
     foldl (\<lambda>text stage. stage text) text0
       [decodeHTMLEntities,
        ep_filterBoilerplateLines,
        replaceAll utmLinkRe [],
        replaceAll longUrlRe [],
        replaceAll trackPathRe [],
        replaceAll hashLinkRe [],
        replaceAll openBracketsRe [],
        replaceAll closeBracketsRe [],
        replaceAll zeroWidthRe [],
        normalizeWhitespace,
        replaceAll invisibleRe [],
        replaceAll blankLinesRe [LF, LF],
        replaceAll addressRe [],
        dropDuplicate 80]"

definition ep_enhancedCleanEmailContent :: "htmlLib \<Rightarrow> jsstring \<Rightarrow> jsstring" where
  "ep_enhancedCleanEmailContent L html =
     (if html = [] then []
      else (let text = ep_cleanText (cleanedDocumentText L html)
            in if length text > 2000 then take 2000 text @ js ''...'' else text))"

definition ga_cleanText :: "jsstring \<Rightarrow> jsstring" where
  "ga_cleanText text0 =
     foldl (\<lambda>text stage. stage text) text0
       [decodeHTMLEntities,
        ga_filterBoilerplateLines,
        replaceAll utmLinkRe [],
        replaceAll trackPathRe [],
        replaceAll hashLinkRe [],
        replaceAll openBracketsRe [],
        replaceAll closeBracketsRe [],
        replaceAll zeroWidthRe [],
        normalizeWhitespace,
        replaceAll invisibleRe [],
        replaceAll blankLinesRe [LF, LF],
        dropDuplicate 150]"

definition ga_enhancedCleanEmailContent :: "htmlLib \<Rightarrow> jsstring \<Rightarrow> jsstring" where
  "ga_enhancedCleanEmailContent L html =
     (if html = [] then [] else ga_cleanText (cleanedDocumentText L html))"

text \<open>The equations that evaluate the pipeline on a concrete text.\<close>

lemmas evx = evd Rep_numeral replaceAll_def regexReplace.simps nonSpace_def alnum_def httpPrefix_def
  scriptBlockRe_def removeScriptAndStyle_def decodeHTMLEntities_def utmLinkRe_def longUrlRe_def
  trackPathRe_def hashLinkRe_def openBracketsRe_def closeBracketsRe_def zeroWidthRe_def
  invisibleRe_def blankLinesRe_def addressRe_def dropDuplicate_def ep_cleanText_def
  ga_cleanText_def


subsection \<open>The specification's example through the whole function\<close>

text \<open>
  With a parser that builds the document above for the example, a serialiser that writes
  the empty document as the empty string and a converter that maps the empty string to
  itself, both versions of \<open>enhancedCleanEmailContent\<close> return the empty string for
  \<open><p>Hello</p><hr><p>Unsubscribe here</p>\<close>.
\<close>

lemma cleanText_empty: "ep_cleanText [] = []" "ga_cleanText [] = []"
  by (simp_all add: evx)

lemma removeScriptAndStyle_example:
  "removeScriptAndStyle (js ''<p>Hello</p><hr><p>Unsubscribe here</p>'')
     = js ''<p>Hello</p><hr><p>Unsubscribe here</p>''"
  by (simp add: evx)

lemma exampleDoc_emptied: "removeBoilerplate exampleDoc = []"
  by (simp add: evd)

lemma enhancedCleanEmailContent_example:
  assumes "cheerio_load L (js ''<p>Hello</p><hr><p>Unsubscribe here</p>'') = exampleDoc"
    and "cheerio_html L [] = []" and "convert L [] = []"
  shows "ep_enhancedCleanEmailContent L (js ''<p>Hello</p><hr><p>Unsubscribe here</p>'') = []"
    and "ga_enhancedCleanEmailContent L (js ''<p>Hello</p><hr><p>Unsubscribe here</p>'') = []"
proof -
  have "cleanedDocumentText L (js ''<p>Hello</p><hr><p>Unsubscribe here</p>'') = []"
    by (simp add: cleanedDocumentText_def removeScriptAndStyle_example assms exampleDoc_emptied)
  then show "ep_enhancedCleanEmailContent L (js ''<p>Hello</p><hr><p>Unsubscribe here</p>'') = []"
    and "ga_enhancedCleanEmailContent L (js ''<p>Hello</p><hr><p>Unsubscribe here</p>'') = []"
    by (simp_all add: ep_enhancedCleanEmailContent_def ga_enhancedCleanEmailContent_def
          cleanText_empty)
qed

subsection \<open>Text that no cleaning stage touches\<close>

text \<open>
  A text of tildes (code unit 126) is no white space, no word character, and no
  expression of the pipeline can start a match on it; only the duplicate detection
  changes it, by halving it.
\<close>

definition tildes :: "jsstring \<Rightarrow> bool" where
  "tildes s = (set s \<subseteq> {126})"

definition noMatchOnTildes :: "re \<Rightarrow> bool" where
  "noMatchOnTildes r =
     (\<forall>prev s. tildes s \<and> (prev = None \<or> prev = Some 126) \<longrightarrow> rmatch r (prev, s) = [])"

lemma tildes_Cons: "tildes (c # s) = (c = 126 \<and> tildes s)"
  by (auto simp: tildes_def)

lemma regexReplace_tildes:
  "noMatchOnTildes r \<Longrightarrow> tildes s \<Longrightarrow> prev = None \<or> prev = Some 126
     \<Longrightarrow> regexReplace r rep prev s = s"
proof (induction s arbitrary: prev)
  case Nil
  then have "rmatch r (prev, []) = []" unfolding noMatchOnTildes_def by blast
  then show ?case by (subst regexReplace.simps) simp
next
  case (Cons c s)
  then have m: "rmatch r (prev, c # s) = []" unfolding noMatchOnTildes_def by blast
  from Cons.prems have "c = 126" "tildes s" by (simp_all add: tildes_Cons)
  with Cons.IH [of "Some c"] Cons.prems(1) have "regexReplace r rep (Some c) s = s" by simp
  with m show ?case by (subst regexReplace.simps) simp
qed

lemma replaceAll_tildes: "noMatchOnTildes r \<Longrightarrow> tildes s \<Longrightarrow> replaceAll r rep s = s"
  by (simp add: replaceAll_def regexReplace_tildes)

lemma regexSearch_tildes:
  "noMatchOnTildes r \<Longrightarrow> tildes s \<Longrightarrow> prev = None \<or> prev = Some 126
     \<Longrightarrow> \<not> regexSearch r prev s"
proof (induction s arbitrary: prev)
  case Nil
  then have "rmatch r (prev, []) = []" unfolding noMatchOnTildes_def by blast
  then show ?case by simp
next
  case (Cons c s)
  then have m: "rmatch r (prev, c # s) = []" unfolding noMatchOnTildes_def by blast
  from Cons.prems have "c = 126" "tildes s" by (simp_all add: tildes_Cons)
  with Cons.IH [of "Some c"] Cons.prems(1) have "\<not> regexSearch r (Some c) s" by simp
  with m show ?case by simp
qed

lemma regexTest_tildes: "noMatchOnTildes r \<Longrightarrow> tildes s \<Longrightarrow> \<not> regexTest r s"
  by (simp add: regexTest_def regexSearch_tildes)

lemma noMatchOnTildesI:
  assumes "\<And>prev :: jschar option. prev = None \<or> prev = Some 126 \<Longrightarrow> rmatch r (prev, []) = []"
    and "\<And>(prev :: jschar option) s. prev = None \<or> prev = Some 126 \<Longrightarrow> rmatch r (prev, 126 # s) = []"
  shows "noMatchOnTildes r"
  unfolding noMatchOnTildes_def
proof (intro allI impI)
  fix prev :: "jschar option" and s
  assume a: "tildes s \<and> (prev = None \<or> prev = Some 126)"
  show "rmatch r (prev, s) = []"
  proof (cases s)
    case Nil
    with a assms(1) show ?thesis by blast
  next
    case (Cons c t)
    with a have "c = 126" by (simp add: tildes_Cons)
    with Cons a assms(2) show ?thesis by blast
  qed
qed

lemmas red = Plus_def Opt_def Chr_def ChrI_def Lit_def LitI_def js_def foldCase_def isSpace_def
  wordBefore_def wordAfter_def isWordChar_def isDigit_def isAsciiLetter_def nonSpace_def alnum_def
  httpPrefix_def

lemma noMatch_entities:
  "noMatchOnTildes (Seq (Cls (\<lambda>c. c = 0xC2 \<or> c = 0xE2)) (Chr 0xA0))"
  "noMatchOnTildes (Chr 38)" "noMatchOnTildes (Chr 34)" "noMatchOnTildes (Chr 60)"
  "noMatchOnTildes (Chr 62)"
  by (rule noMatchOnTildesI; simp add: red)+

lemma noMatch_links:
  "noMatchOnTildes utmLinkRe" "noMatchOnTildes longUrlRe" "noMatchOnTildes trackPathRe"
  "noMatchOnTildes hashLinkRe" "noMatchOnTildes urlRe"
  by (rule noMatchOnTildesI;
      simp add: red utmLinkRe_def longUrlRe_def trackPathRe_def hashLinkRe_def urlRe_def)+

lemma noMatch_marks:
  "noMatchOnTildes openBracketsRe" "noMatchOnTildes closeBracketsRe" "noMatchOnTildes zeroWidthRe"
  "noMatchOnTildes invisibleRe" "noMatchOnTildes blankLinesRe" "noMatchOnTildes addressRe"
  by (rule noMatchOnTildesI;
      simp add: red openBracketsRe_def closeBracketsRe_def zeroWidthRe_def invisibleRe_def
        blankLinesRe_def addressRe_def Let_def)+

lemma noMatch_contact:
  "noMatchOnTildes emailRe" "noMatchOnTildes phoneRe"
  by (rule noMatchOnTildesI; auto simp add: red emailRe_def phoneRe_def)+


lemma tildes_replicate: "tildes (replicate n 126)"
  by (auto simp: tildes_def)

lemma includes_str_tildes: "tildes s \<Longrightarrow> k \<noteq> [] \<Longrightarrow> hd k \<noteq> 126 \<Longrightarrow> \<not> includes_str s k"
proof (induction s)
  case Nil
  then show ?case by simp
next
  case (Cons c s)
  then have "c = 126" "tildes s" by (simp_all add: tildes_Cons)
  moreover have "\<not> startsWith (c # s) k" using Cons.prems(2,3) \<open>c = 126\<close>
    by (cases k) (auto simp: startsWith_def)
  ultimately show ?case using Cons by simp
qed

lemma toLowerCase_tildes: "tildes s \<Longrightarrow> toLowerCase s = s"
  by (induction s) (simp_all add: toLowerCase_def lowerUnit_def tildes_Cons)

lemma dropWhile_none: "\<forall>c \<in> set s. \<not> p c \<Longrightarrow> dropWhile p s = s"
  by (cases s) auto

lemma trim_tildes: "tildes s \<Longrightarrow> trim s = s"
proof -
  assume "tildes s"
  then have "\<forall>c \<in> set s. \<not> isSpace c" by (auto simp: tildes_def isSpace_def)
  then show ?thesis by (simp add: trim_def dropWhile_none)
qed

lemma split_tildes: "tildes s \<Longrightarrow> split LF s = [s]"
  by (rule split_last) (auto simp: tildes_def)

lemma ga_hasKeyword_tildes: "tildes s \<Longrightarrow> \<not> ga_hasKeyword s"
  by (simp add: ga_hasKeyword_def ga_footerKeywords_def toLowerCase_tildes includes_str_tildes js_def)

lemma ep_hasKeyword_tildes: "tildes s \<Longrightarrow> \<not> ep_hasKeyword s"
  by (simp add: ep_hasKeyword_def ep_footerKeywords_def toLowerCase_tildes includes_str_tildes js_def)

lemma ga_filterBoilerplateLines_tildes:
  "tildes s \<Longrightarrow> 5 \<le> length s \<Longrightarrow> ga_filterBoilerplateLines s = s"
  by (simp add: ga_filterBoilerplateLines_def split_tildes trim_tildes ga_keepLine_def
        ga_hasKeyword_tildes)

lemma ep_filterBoilerplateLines_tildes:
  "tildes s \<Longrightarrow> 5 \<le> length s \<Longrightarrow> ep_filterBoilerplateLines s = s"
  by (simp add: ep_filterBoilerplateLines_def split_tildes trim_tildes ep_keepLine_def
        ep_hasKeyword_tildes regexTest_tildes noMatch_contact noMatch_links)

lemma collapseRuns_none: "\<forall>c \<in> set s. \<not> p c \<Longrightarrow> collapseRuns p r s = s"
  by (induction s) simp_all

lemma normalizeWhitespace_tildes: "tildes s \<Longrightarrow> normalizeWhitespace s = s"
proof -
  assume t: "tildes s"
  then have a: "\<forall>c \<in> set s. \<not> (c = SPACE \<or> c = TAB)" and b: "\<forall>c \<in> set s. \<not> (c = LF)"
    by (auto simp: tildes_def)
  show ?thesis
    by (simp add: normalizeWhitespace_runs collapseRuns_none [OF a] collapseRuns_none [OF b]
          trim_tildes [OF t])
qed

lemma includes_str_startsWith: "startsWith s sub \<Longrightarrow> includes_str s sub"
  by (cases s) (auto simp: startsWith_def)

lemma includes_str_replicate: "b \<le> a \<Longrightarrow> includes_str (replicate a c) (replicate b c)"
  by (rule includes_str_startsWith) (simp add: startsWith_def min_def)

lemma dropDuplicate_replicate:
  "100 < m div 2 \<Longrightarrow> dropDuplicate n (replicate m c) = replicate (m div 2) c"
proof -
  assume h: "100 < m div 2"
  have le: "min (m div 2) n \<le> m - m div 2" by simp
  have "includes_str (replicate (m - m div 2) c) (replicate (min (m div 2) n) c)"
    by (rule includes_str_replicate [OF le])
  then have "includes_str (drop (m div 2) (replicate m c)) (take n (take (m div 2) (replicate m c)))"
    by (simp add: min.commute)
  with h show ?thesis by (simp add: dropDuplicate_def Let_def del: take_replicate drop_replicate take_take)
      (simp add: min_def)
qed

lemma ga_cleanText_tildes:
  assumes "100 < m div 2"
  shows "ga_cleanText (replicate m 126) = replicate (m div 2) 126"
proof -
  have t: "tildes (replicate m 126)" by (rule tildes_replicate)
  have l: "5 \<le> length (replicate m (126 :: jschar))" using assms by simp
  show ?thesis
    by (simp add: ga_cleanText_def decodeHTMLEntities_def replaceAll_tildes t noMatch_entities
          noMatch_links noMatch_marks ga_filterBoilerplateLines_tildes [OF t l]
          normalizeWhitespace_tildes dropDuplicate_replicate [OF assms])
qed

lemma ep_cleanText_tildes:
  assumes "100 < m div 2"
  shows "ep_cleanText (replicate m 126) = replicate (m div 2) 126"
proof -
  have t: "tildes (replicate m 126)" by (rule tildes_replicate)
  have l: "5 \<le> length (replicate m (126 :: jschar))" using assms by simp
  show ?thesis
    by (simp add: ep_cleanText_def decodeHTMLEntities_def replaceAll_tildes t noMatch_entities
          noMatch_links noMatch_marks ep_filterBoilerplateLines_tildes [OF t l]
          normalizeWhitespace_tildes dropDuplicate_replicate [OF assms])
qed

text \<open>
  C10. In src/email-processor.js \<open>enhancedCleanEmailContent\<close> replaces a result longer than
  2000 code units by its first 2000 code units followed by \<open>...\<close>, so its result is never
  longer than 2003, for every input and every behaviour of the libraries, and 2003 is
  reached; the pipeline of src/gmail-auth.js returns the cleaned text as it is, and returns
  3000 code units where the other returns 2003.
\<close>

theorem enhancedCleanEmailContent_cap:
  "length (ep_enhancedCleanEmailContent L html) \<le> 2003
   \<and> ep_enhancedCleanEmailContent L html
       = (if html = [] then []
          else if length (ep_cleanText (cleanedDocumentText L html)) > 2000
          then take 2000 (ep_cleanText (cleanedDocumentText L html)) @ js ''...''
          else ep_cleanText (cleanedDocumentText L html))
   \<and> ga_enhancedCleanEmailContent L html
       = (if html = [] then [] else ga_cleanText (cleanedDocumentText L html))
   \<and> length (ep_enhancedCleanEmailContent (L\<lparr>convert := \<lambda>h. replicate 6000 126\<rparr>) (js ''<p>''))
       = 2003
   \<and> length (ga_enhancedCleanEmailContent (L\<lparr>convert := \<lambda>h. replicate 6000 126\<rparr>) (js ''<p>''))
       = 3000"
proof -
  have a: "length (ep_enhancedCleanEmailContent L html) \<le> 2003"
    by (simp add: ep_enhancedCleanEmailContent_def Let_def js_def)
  have b: "ep_enhancedCleanEmailContent L html
       = (if html = [] then []
          else if length (ep_cleanText (cleanedDocumentText L html)) > 2000
          then take 2000 (ep_cleanText (cleanedDocumentText L html)) @ js ''...''
          else ep_cleanText (cleanedDocumentText L html))"
    by (simp add: ep_enhancedCleanEmailContent_def Let_def)
  have c: "ga_enhancedCleanEmailContent L html
       = (if html = [] then [] else ga_cleanText (cleanedDocumentText L html))"
    by (simp add: ga_enhancedCleanEmailContent_def)
  have d: "length (ep_enhancedCleanEmailContent (L\<lparr>convert := \<lambda>h. replicate 6000 126\<rparr>) (js ''<p>''))
       = 2003"
    by (simp add: ep_enhancedCleanEmailContent_def cleanedDocumentText_def ep_cleanText_tildes
          Let_def js_def)
  have e: "length (ga_enhancedCleanEmailContent (L\<lparr>convert := \<lambda>h. replicate 6000 126\<rparr>) (js ''<p>''))
       = 3000"
    by (simp add: ga_enhancedCleanEmailContent_def cleanedDocumentText_def ga_cleanText_tildes
          js_def)
  from a b c d e show ?thesis by (intro conjI)
qed

section \<open>Decoding a message part (\<open>decodeEmailBody\<close>)\<close>

text \<open>
  \<open>decodeEmailBody\<close> receives what \<open>res.json()\<close> returned, so its argument is a JSON
  value: nothing in the code checks that it is a message part. The model takes any JSON
  value (with \<open>undefined\<close> for what may be absent) and has a branch for every place where
  JavaScript throws. An object is the list of its properties, with distinct keys; a
  number is only ever tested for being zero.
\<close>

datatype jv = JUndefined | JNull | JBool bool | JNum int | JStr jsstring
  | JArr "jv list" | JObj "(jsstring \<times> jv) list"

datatype js_error = TypeError

text \<open>
  \<open>truthy v\<close>: the condition \<open>if (v)\<close>. \<open>get v key\<close>: the property access \<open>v.key\<close> on a
  value that is neither \<open>null\<close> nor \<open>undefined\<close>, for the keys the function reads
  (\<open>mimeType\<close>, \<open>body\<close>, \<open>data\<close>, \<open>parts\<close>): an object gives its property or \<open>undefined\<close>,
  and strings, numbers, booleans and arrays have no property of these names.
\<close>

fun truthy :: "jv \<Rightarrow> bool" where
  "truthy JUndefined = False"
| "truthy JNull = False"
| "truthy (JBool b) = b"
| "truthy (JNum n) = (n \<noteq> 0)"
| "truthy (JStr s) = (s \<noteq> [])"
| "truthy (JArr xs) = True"
| "truthy (JObj kvs) = True"

fun get :: "jv \<Rightarrow> jsstring \<Rightarrow> jv" where
  "get (JObj kvs) key = (case map_of kvs key of None \<Rightarrow> JUndefined | Some v \<Rightarrow> v)"
| "get v key = JUndefined"

text \<open>
  \<open>parts.find(p => p.mimeType === t)\<close> on an array: the callback throws a TypeError on an
  element that is \<open>null\<close> or \<open>undefined\<close>, if \<open>find\<close> gets that far.
\<close>

fun findByMimeType :: "jsstring \<Rightarrow> jv list \<Rightarrow> js_error + jv option" where
  "findByMimeType t [] = Inr None"
| "findByMimeType t (p # ps) =
     (if p = JNull \<or> p = JUndefined then Inl TypeError
      else if get p (js ''mimeType'') = JStr t then Inr (Some p)
      else findByMimeType t ps)"

text \<open>The results of \<open>parts.map(...)\<close>: the first call that throws ends the whole map.\<close>

fun sequence :: "(js_error + 'a) list \<Rightarrow> js_error + 'a list" where
  "sequence [] = Inr []"
| "sequence (r # rs) =
     (case r of Inl e \<Rightarrow> Inl e
      | Inr x \<Rightarrow> (case sequence rs of Inl e \<Rightarrow> Inl e | Inr xs \<Rightarrow> Inr (x # xs)))"

text \<open>
  What \<open>decodeEmailBody\<close> calls. \<open>decodeBase64 v\<close> is
  \<open>Buffer.from(v, 'base64').toString('utf-8')\<close>, a Node.js built-in that is not part of the
  repository: on a string it returns a string, on other values it may throw.
  \<open>cleanPlainText\<close> and \<open>enhancedCleanEmailContent\<close> are the cleaners of the file the
  function is in; the function itself is the same text in src/email-processor.js and in
  src/gmail-auth.js (the second definition there).
\<close>

record decoders =
  decodeBase64 :: "jv \<Rightarrow> js_error + jsstring"
  cleanPlainText :: "jsstring \<Rightarrow> jsstring"
  enhancedCleanEmailContent :: "jsstring \<Rightarrow> jsstring"

text \<open>The children found under \<open>parts\<close> are smaller than the part: the recursion ends.\<close>

lemma size_get_JArr: "get part key = JArr ps \<Longrightarrow> p \<in> set ps \<Longrightarrow> size p < size part"
proof (cases part)
  case (JObj kvs)
  assume g: "get part key = JArr ps" and p: "p \<in> set ps"
  from g JObj have "map_of kvs key = Some (JArr ps)" by (simp split: option.splits)
  then have "(key, JArr ps) \<in> set kvs" by (rule map_of_SomeD)
  then have "size_prod (\<lambda>_. 0) size (key, JArr ps) \<le> size_list (size_prod (\<lambda>_. 0) size) kvs"
    by (simp add: size_list_estimation')
  moreover have "size p \<le> size_list size ps" using p by (simp add: size_list_estimation')
  ultimately show ?thesis using JObj by simp
qed simp_all

lemma findByMimeType_in: "findByMimeType t ps = Inr (Some p) \<Longrightarrow> p \<in> set ps"
  by (induction ps) (auto split: if_splits)

text \<open>
  \<^verbatim>\<open>
  function decodeEmailBody(part) {
    if (!part) return '';
    if (part.mimeType === 'text/plain' && part.body && part.body.data) {
      const plain = Buffer.from(part.body.data, 'base64').toString('utf-8');
      return cleanPlainText(plain);
    }
    if (part.mimeType === 'text/html' && part.body && part.body.data) {
      const html = Buffer.from(part.body.data, 'base64').toString('utf-8');
      return enhancedCleanEmailContent(html);
    }
    if (part.mimeType === 'multipart/alternative' && part.parts) {
      const plainPart = part.parts.find(p => p.mimeType === 'text/plain');
      if (plainPart) return decodeEmailBody(plainPart);
      const htmlPart = part.parts.find(p => p.mimeType === 'text/html');
      if (htmlPart) return decodeEmailBody(htmlPart);
      return part.parts.map(p => decodeEmailBody(p)).join('\n');
    }
    if (part.parts) {
      return part.parts
        .map(subPart => decodeEmailBody(subPart))
        .filter(text => text && text.trim().length > 0)
        .join('\n');
    }
    return '';
  }
  \<close>
  \<open>part.parts.find\<close> and \<open>part.parts.map\<close> are functions only when \<open>part.parts\<close> is an
  array; on any other truthy value the call throws a TypeError. A part that \<open>find\<close>
  returns has a \<open>mimeType\<close>, so it is an object and \<open>if (plainPart)\<close> holds.
\<close>

function decodeEmailBody :: "decoders \<Rightarrow> jv \<Rightarrow> js_error + jsstring" where
  "decodeEmailBody D part =
     (if \<not> truthy part then Inr []
      else if get part (js ''mimeType'') = JStr (js ''text/plain'')
              \<and> truthy (get part (js ''body''))
              \<and> truthy (get (get part (js ''body'')) (js ''data''))
      then (case decodeBase64 D (get (get part (js ''body'')) (js ''data'')) of
              Inl e \<Rightarrow> Inl e
            | Inr plain \<Rightarrow> Inr (cleanPlainText D plain))
      else if get part (js ''mimeType'') = JStr (js ''text/html'')
              \<and> truthy (get part (js ''body''))
              \<and> truthy (get (get part (js ''body'')) (js ''data''))
      then (case decodeBase64 D (get (get part (js ''body'')) (js ''data'')) of
              Inl e \<Rightarrow> Inl e
            | Inr html \<Rightarrow> Inr (enhancedCleanEmailContent D html))
      else if get part (js ''mimeType'') = JStr (js ''multipart/alternative'')
              \<and> truthy (get part (js ''parts''))
      then (case get part (js ''parts'') of
              JArr ps \<Rightarrow>
                (case findByMimeType (js ''text/plain'') ps of
                   Inl e \<Rightarrow> Inl e
                 | Inr (Some plainPart) \<Rightarrow> decodeEmailBody D plainPart
                 | Inr None \<Rightarrow>
                     (case findByMimeType (js ''text/html'') ps of
                        Inl e \<Rightarrow> Inl e
                      | Inr (Some htmlPart) \<Rightarrow> decodeEmailBody D htmlPart
                      | Inr None \<Rightarrow>
                          (case sequence (map (decodeEmailBody D) ps) of
                             Inl e \<Rightarrow> Inl e
                           | Inr texts \<Rightarrow> Inr (join [LF] texts))))
            | _ \<Rightarrow> Inl TypeError)
      else if truthy (get part (js ''parts''))
      then (case get part (js ''parts'') of
              JArr ps \<Rightarrow>
                (case sequence (map (decodeEmailBody D) ps) of
                   Inl e \<Rightarrow> Inl e
                 | Inr texts \<Rightarrow>
                     Inr (join [LF] (filter (\<lambda>text. text \<noteq> [] \<and> length (trim text) > 0) texts)))
            | _ \<Rightarrow> Inl TypeError)
      else Inr [])"
  by pat_completeness auto
termination
proof (relation "measure (\<lambda>(D, part). size part)")
qed (auto dest: findByMimeType_in size_get_JArr)


declare decodeEmailBody.simps [simp del]

subsection \<open>Message parts\<close>

text \<open>
  A MessagePart tree as the mail API delivers it: an object whose \<open>mimeType\<close>, if present,
  is a string, whose \<open>body\<close>, if present, is an object whose \<open>data\<close>, if present, is a
  string, and whose \<open>parts\<close>, if present, is an array of MessageParts. \<open>None\<close> is an absent
  field; \<open>body = Some None\<close> is a body without data. \<open>ofPart\<close> is the JSON value of a part
  and \<open>ofRoot\<close> the argument of the call, \<open>null\<close> for no part at all. (The other
  properties of a part, which the function does not read, are left out.)
\<close>

datatype part = Part (mimeType: "jsstring option") (body: "jsstring option option")
  (parts: "part list option")

fun field :: "jsstring \<Rightarrow> jv option \<Rightarrow> (jsstring \<times> jv) list" where
  "field key None = []"
| "field key (Some v) = [(key, v)]"

fun ofPart :: "part \<Rightarrow> jv" where
  "ofPart (Part m b ps) =
     JObj (field (js ''mimeType'') (map_option JStr m)
         @ field (js ''body'')
             (map_option (\<lambda>d. JObj (field (js ''data'') (map_option JStr d))) b)
         @ field (js ''parts'') (map_option (\<lambda>cs. JArr (map ofPart cs)) ps))"

fun ofRoot :: "part option \<Rightarrow> jv" where
  "ofRoot None = JNull"
| "ofRoot (Some p) = ofPart p"

subsection \<open>The branches on a message part\<close>

lemma get_mimeType:
  "get (ofPart p) (js ''mimeType'') = (case mimeType p of None \<Rightarrow> JUndefined | Some m \<Rightarrow> JStr m)"
  by (cases p; cases "mimeType p"; cases "body p"; cases "parts p") (simp_all add: js_def)

lemma get_data:
  "get (get (ofPart p) (js ''body'')) (js ''data'')
     = (case body p of Some (Some d) \<Rightarrow> JStr d | _ \<Rightarrow> JUndefined)"
  by (cases p; cases "mimeType p"; cases "body p"; cases "parts p")
     (auto simp: js_def split: option.splits)

lemma truthy_body: "truthy (get (ofPart p) (js ''body'')) = (body p \<noteq> None)"
  by (cases p; cases "mimeType p"; cases "body p"; cases "parts p") (simp_all add: js_def)

lemma get_parts:
  "get (ofPart p) (js ''parts'')
     = (case parts p of None \<Rightarrow> JUndefined | Some cs \<Rightarrow> JArr (map ofPart cs))"
  by (cases p; cases "mimeType p"; cases "body p"; cases "parts p") (simp_all add: js_def)

lemma truthy_ofPart: "truthy (ofPart p)"
  by (cases p) simp

lemma ofPart_not_null: "ofPart p \<noteq> JNull" "ofPart p \<noteq> JUndefined"
  by (cases p, simp)+

lemma findByMimeType_ofPart:
  "findByMimeType t (map ofPart cs)
     = Inr (map_option ofPart (find (\<lambda>c. mimeType c = Some t) cs))"
  by (induction cs) (auto simp: ofPart_not_null get_mimeType split: option.splits)

lemma sequence_Inr:
  "\<forall>x \<in> set xs. \<exists>t. f x = Inr t \<Longrightarrow>
   \<exists>ts. sequence (map f xs) = Inr ts \<and> list_all2 (\<lambda>x t. f x = Inr t) xs ts"
proof (induction xs)
  case Nil
  show ?case by simp
next
  case (Cons x xs)
  then obtain t ts where "f x = Inr t" "sequence (map f xs) = Inr ts"
    "list_all2 (\<lambda>x t. f x = Inr t) xs ts" by auto
  then show ?case by simp
qed

text \<open>
  The results of the children as a list: \<open>sequence\<close> returns the texts exactly when every
  child returned one, in the order of the children, and an error exactly when some child
  threw.
\<close>

lemma sequence_eq_Inr:
  "(sequence (map f xs) = Inr ts) = list_all2 (\<lambda>x t. f x = Inr t) xs ts"
proof (induction xs arbitrary: ts)
  case Nil
  show ?case by auto
next
  case (Cons x xs)
  show ?case
  proof (cases "f x")
    case (Inl e)
    then show ?thesis by (auto simp: list_all2_Cons1)
  next
    case (Inr t)
    show ?thesis
    proof (cases "sequence (map f xs)")
      case (Inl e)
      with Cons [of "tl ts"] Inr show ?thesis
        by (auto simp: list_all2_Cons1 Cons)
    next
      case r: (Inr us)
      with Cons Inr show ?thesis by (auto simp: list_all2_Cons1)
    qed
  qed
qed

lemma sequence_eq_Inl:
  "(\<exists>e. sequence (map f xs) = Inl e) = (\<exists>x \<in> set xs. \<exists>e. f x = Inl e)"
  by (induction xs) (auto split: sum.splits)

lemmas partGet = get_mimeType get_data truthy_body get_parts truthy_ofPart

lemma mime_distinct:
  "js ''text/plain'' \<noteq> js ''text/html''" "js ''text/html'' \<noteq> js ''text/plain''"
  "js ''multipart/alternative'' \<noteq> js ''text/plain''"
  "js ''multipart/alternative'' \<noteq> js ''text/html''"
  "js ''text/plain'' \<noteq> js ''multipart/alternative''"
  "js ''text/html'' \<noteq> js ''multipart/alternative''"
  by (simp_all add: js_def)

lemma decodeEmailBody_plain:
  assumes "mimeType p = Some (js ''text/plain'')" "body p = Some (Some d)" "d \<noteq> []"
  shows "decodeEmailBody D (ofPart p)
     = (case decodeBase64 D (JStr d) of
          Inl e \<Rightarrow> Inl e
        | Inr plain \<Rightarrow> Inr (cleanPlainText D plain))"
  by (subst decodeEmailBody.simps) (simp add: partGet assms)

lemma decodeEmailBody_html:
  assumes "mimeType p = Some (js ''text/html'')" "body p = Some (Some d)" "d \<noteq> []"
  shows "decodeEmailBody D (ofPart p)
     = (case decodeBase64 D (JStr d) of
          Inl e \<Rightarrow> Inl e
        | Inr html \<Rightarrow> Inr (enhancedCleanEmailContent D html))"
  by (subst decodeEmailBody.simps) (simp add: partGet assms mime_distinct)


lemma decodeEmailBody_alternative_eq:
  assumes "mimeType p = Some (js ''multipart/alternative'')" "parts p = Some cs"
  shows "decodeEmailBody D (ofPart p)
     = (case find (\<lambda>c. mimeType c = Some (js ''text/plain'')) cs of
          Some plainPart \<Rightarrow> decodeEmailBody D (ofPart plainPart)
        | None \<Rightarrow>
            (case find (\<lambda>c. mimeType c = Some (js ''text/html'')) cs of
               Some htmlPart \<Rightarrow> decodeEmailBody D (ofPart htmlPart)
             | None \<Rightarrow>
                 (case sequence (map (\<lambda>c. decodeEmailBody D (ofPart c)) cs) of
                    Inl e \<Rightarrow> Inl e
                  | Inr texts \<Rightarrow> Inr (join [LF] texts))))"
  by (subst decodeEmailBody.simps)
     (simp add: partGet assms mime_distinct findByMimeType_ofPart comp_def
        split: option.splits)

lemma decodeEmailBody_container_eq:
  assumes "mimeType p \<noteq> Some (js ''multipart/alternative'')" "parts p = Some cs"
    "mimeType p \<in> {Some (js ''text/plain''), Some (js ''text/html'')}
       \<Longrightarrow> body p \<in> {None, Some None, Some (Some [])}"
  shows "decodeEmailBody D (ofPart p)
     = (case sequence (map (\<lambda>c. decodeEmailBody D (ofPart c)) cs) of
          Inl e \<Rightarrow> Inl e
        | Inr texts \<Rightarrow>
            Inr (join [LF] (filter (\<lambda>text. text \<noteq> [] \<and> length (trim text) > 0) texts)))"
proof -
  have leaf: "\<not> (get (ofPart p) (js ''mimeType'') = JStr t
              \<and> truthy (get (ofPart p) (js ''body''))
              \<and> truthy (get (get (ofPart p) (js ''body'')) (js ''data'')))"
    if "t = js ''text/plain'' \<or> t = js ''text/html''" for t
    using that assms(3) by (auto simp: partGet split: option.splits)
  have alt: "get (ofPart p) (js ''mimeType'') \<noteq> JStr (js ''multipart/alternative'')"
    using assms(1) by (auto simp: partGet split: option.splits)
  have ps: "get (ofPart p) (js ''parts'') = JArr (map ofPart cs)"
    using assms(2) by (simp add: partGet)
  show ?thesis
    by (subst decodeEmailBody.simps) (simp add: leaf alt ps truthy_ofPart comp_def)
qed

lemma decodeEmailBody_empty:
  assumes "parts p = None"
    "mimeType p \<in> {Some (js ''text/plain''), Some (js ''text/html'')}
       \<Longrightarrow> body p \<in> {None, Some None, Some (Some [])}"
  shows "decodeEmailBody D (ofPart p) = Inr []"
proof -
  have leaf: "\<not> (get (ofPart p) (js ''mimeType'') = JStr t
              \<and> truthy (get (ofPart p) (js ''body''))
              \<and> truthy (get (get (ofPart p) (js ''body'')) (js ''data'')))"
    if "t = js ''text/plain'' \<or> t = js ''text/html''" for t
    using that assms(2) by (auto simp: partGet split: option.splits)
  have ps: "get (ofPart p) (js ''parts'') = JUndefined"
    using assms(1) by (simp add: partGet)
  show ?thesis
    by (subst decodeEmailBody.simps) (simp add: leaf ps truthy_ofPart)
qed


lemma find_in_set: "find P xs = Some x \<Longrightarrow> x \<in> set xs"
  by (induction xs) (auto split: if_splits)

lemma decodeEmailBody_returns:
  assumes dec: "\<forall>s. \<exists>t. decodeBase64 D (JStr s) = Inr t"
  shows "\<exists>text. decodeEmailBody D (ofPart p) = Inr text"
proof (induction p)
  case (Part m b ps)
  let ?p = "Part m b ps"
  have children: "\<exists>text. decodeEmailBody D (ofPart c) = Inr text" if "ps = Some cs" "c \<in> set cs" for cs c
    using Part that by auto
  have seq: "\<exists>ts. sequence (map (\<lambda>c. decodeEmailBody D (ofPart c)) cs) = Inr ts" if "ps = Some cs" for cs
    using sequence_Inr [of cs "\<lambda>c. decodeEmailBody D (ofPart c)"] children [OF that] by blast
  consider
      (plain) d where "m = Some (js ''text/plain'')" "b = Some (Some d)" "d \<noteq> []"
    | (html) d where "m = Some (js ''text/html'')" "b = Some (Some d)" "d \<noteq> []"
    | (other) "m \<in> {Some (js ''text/plain''), Some (js ''text/html'')}
                 \<Longrightarrow> b \<in> {None, Some None, Some (Some [])}"
    by (cases b; cases "the b") auto
  then show ?case
  proof cases
    case plain
    from dec obtain t where "decodeBase64 D (JStr d) = Inr t" by blast
    with plain show ?thesis using decodeEmailBody_plain [of ?p d D] by simp
  next
    case html
    from dec obtain t where "decodeBase64 D (JStr d) = Inr t" by blast
    with html show ?thesis using decodeEmailBody_html [of ?p d D] by simp
  next
    case other
    show ?thesis
    proof (cases ps)
      case None
      with other show ?thesis using decodeEmailBody_empty [of ?p D] by simp
    next
      case (Some cs)
      from seq [OF Some] obtain ts
        where ts: "sequence (map (\<lambda>c. decodeEmailBody D (ofPart c)) cs) = Inr ts" by blast
      show ?thesis
      proof (cases "m = Some (js ''multipart/alternative'')")
        case False
        with Some other ts show ?thesis using decodeEmailBody_container_eq [of ?p cs D] by simp
      next
        case True
        note eq = decodeEmailBody_alternative_eq [of ?p cs D]
        show ?thesis
        proof (cases "find (\<lambda>c. mimeType c = Some (js ''text/plain'')) cs")
          case (Some c)
          then have "c \<in> set cs" by (rule find_in_set)
          with children [OF \<open>ps = Some cs\<close>] Some True \<open>ps = Some cs\<close> eq show ?thesis by simp
        next
          case None
          note noPlain = None
          show ?thesis
          proof (cases "find (\<lambda>c. mimeType c = Some (js ''text/html'')) cs")
            case (Some c)
            then have "c \<in> set cs" by (rule find_in_set)
            with children [OF \<open>ps = Some cs\<close>] Some noPlain True \<open>ps = Some cs\<close> eq
            show ?thesis by simp
          next
            case None
            with noPlain True \<open>ps = Some cs\<close> eq ts show ?thesis by simp
          qed
        qed
      qed
    qed
  qed
qed

text \<open>
  C2. For every finite MessagePart tree, \<open>null\<close> and nodes without \<open>mimeType\<close>, \<open>body\<close>,
  \<open>body.data\<close> or \<open>parts\<close> included, \<open>decodeEmailBody\<close> ends and returns a string: it
  does not throw and does not return \<open>null\<close>; \<open>null\<close> gives the empty string, and so does a
  part without children whose body or body data is absent or empty. (The base64 decoder
  of the platform is assumed to return a string on a string.)
\<close>

theorem decodeEmailBody_never_fails:
  assumes "\<forall>s. \<exists>t. decodeBase64 D (JStr s) = Inr t"
  shows "(\<exists>text. decodeEmailBody D (ofRoot root) = Inr text)
       \<and> decodeEmailBody D (ofRoot None) = Inr []
       \<and> (\<forall>m ps. ps \<in> {None, Some []}
             \<longrightarrow> decodeEmailBody D (ofPart (Part m None ps)) = Inr []
               \<and> decodeEmailBody D (ofPart (Part m (Some None) ps)) = Inr []
               \<and> decodeEmailBody D (ofPart (Part m (Some (Some [])) ps)) = Inr [])"
proof -
  have null: "decodeEmailBody D (ofRoot None) = Inr []"
    by (subst decodeEmailBody.simps) simp
  have root: "\<exists>text. decodeEmailBody D (ofRoot root) = Inr text"
    using null decodeEmailBody_returns [OF assms] by (cases root) auto
  have leaf: "decodeEmailBody D (ofPart (Part m b ps)) = Inr []"
    if "b \<in> {None, Some None, Some (Some [])}" "ps \<in> {None, Some []}" for m b ps
  proof (cases ps)
    case None
    with that show ?thesis using decodeEmailBody_empty [of "Part m b ps" D] by simp
  next
    case (Some cs)
    with that have cs: "cs = []" by simp
    show ?thesis
    proof (cases "m = Some (js ''multipart/alternative'')")
      case True
      with Some cs show ?thesis
        using decodeEmailBody_alternative_eq [of "Part m b ps" cs D] by simp
    next
      case False
      with Some cs that show ?thesis
        using decodeEmailBody_container_eq [of "Part m b ps" cs D] by simp
    qed
  qed
  from root null leaf show ?thesis by blast
qed


text \<open>
  C3. For every \<open>multipart/alternative\<close> node with children, \<open>decodeEmailBody\<close> returns
  what it returns for the first \<open>text/plain\<close> child, whether or not there is a \<open>text/html\<close>
  child (whose output is not used); with no \<open>text/plain\<close> child, what it returns for the
  first \<open>text/html\<close> child; with neither, the texts it returns for the children, in their
  order, joined by line feeds (and it throws if a child throws). For a \<open>text/plain\<close> child
  with body data the text is \<open>cleanPlainText\<close> of the decoded data, for a \<open>text/html\<close>
  child \<open>enhancedCleanEmailContent\<close> of it.
\<close>

theorem decodeEmailBody_alternative:
  "(find (\<lambda>c. mimeType c = Some (js ''text/plain'')) cs = Some plainPart
      \<longrightarrow> decodeEmailBody D (ofPart (Part (Some (js ''multipart/alternative'')) b (Some cs)))
            = decodeEmailBody D (ofPart plainPart))
   \<and> (find (\<lambda>c. mimeType c = Some (js ''text/plain'')) cs = None
        \<and> find (\<lambda>c. mimeType c = Some (js ''text/html'')) cs = Some htmlPart
      \<longrightarrow> decodeEmailBody D (ofPart (Part (Some (js ''multipart/alternative'')) b (Some cs)))
            = decodeEmailBody D (ofPart htmlPart))
   \<and> (find (\<lambda>c. mimeType c = Some (js ''text/plain'')) cs = None
        \<and> find (\<lambda>c. mimeType c = Some (js ''text/html'')) cs = None
        \<and> list_all2 (\<lambda>c text. decodeEmailBody D (ofPart c) = Inr text) cs texts
      \<longrightarrow> decodeEmailBody D (ofPart (Part (Some (js ''multipart/alternative'')) b (Some cs)))
            = Inr (join [LF] texts))
   \<and> (find (\<lambda>c. mimeType c = Some (js ''text/plain'')) cs = None
        \<and> find (\<lambda>c. mimeType c = Some (js ''text/html'')) cs = None
        \<and> list_ex (\<lambda>c. decodeEmailBody D (ofPart c) = Inl TypeError) cs
      \<longrightarrow> decodeEmailBody D (ofPart (Part (Some (js ''multipart/alternative'')) b (Some cs)))
            = Inl TypeError)
   \<and> (mimeType c = Some (js ''text/plain'') \<and> body c = Some (Some d) \<and> d \<noteq> []
        \<and> decodeBase64 D (JStr d) = Inr decoded
      \<longrightarrow> decodeEmailBody D (ofPart c) = Inr (cleanPlainText D decoded))
   \<and> (mimeType c = Some (js ''text/html'') \<and> body c = Some (Some d) \<and> d \<noteq> []
        \<and> decodeBase64 D (JStr d) = Inr decoded
      \<longrightarrow> decodeEmailBody D (ofPart c) = Inr (enhancedCleanEmailContent D decoded))"
proof -
  let ?node = "ofPart (Part (Some (js ''multipart/alternative'')) b (Some cs))"
  let ?plain = "find (\<lambda>c. mimeType c = Some (js ''text/plain'')) cs"
  let ?html = "find (\<lambda>c. mimeType c = Some (js ''text/html'')) cs"
  let ?results = "sequence (map (\<lambda>c. decodeEmailBody D (ofPart c)) cs)"
  note eq = decodeEmailBody_alternative_eq
              [of "Part (Some (js ''multipart/alternative'')) b (Some cs)" cs D]
  have a: "?plain = Some plainPart
      \<longrightarrow> decodeEmailBody D ?node = decodeEmailBody D (ofPart plainPart)"
    using eq by simp
  have h: "?plain = None \<and> ?html = Some htmlPart
      \<longrightarrow> decodeEmailBody D ?node = decodeEmailBody D (ofPart htmlPart)"
    using eq by simp
  have j: "?plain = None \<and> ?html = None
        \<and> list_all2 (\<lambda>c text. decodeEmailBody D (ofPart c) = Inr text) cs texts
      \<longrightarrow> decodeEmailBody D ?node = Inr (join [LF] texts)"
  proof (intro impI, elim conjE)
    assume n: "?plain = None" "?html = None"
      and "list_all2 (\<lambda>c text. decodeEmailBody D (ofPart c) = Inr text) cs texts"
    then have "?results = Inr texts" by (simp add: sequence_eq_Inr)
    with n eq show "decodeEmailBody D ?node = Inr (join [LF] texts)" by simp
  qed
  have t: "?plain = None \<and> ?html = None
        \<and> list_ex (\<lambda>c. decodeEmailBody D (ofPart c) = Inl TypeError) cs
      \<longrightarrow> decodeEmailBody D ?node = Inl TypeError"
  proof (intro impI, elim conjE)
    assume n: "?plain = None" "?html = None"
      and "list_ex (\<lambda>c. decodeEmailBody D (ofPart c) = Inl TypeError) cs"
    then have "\<exists>c \<in> set cs. \<exists>e. decodeEmailBody D (ofPart c) = Inl e"
      by (auto simp: list_ex_iff)
    then obtain e where "?results = Inl e"
      using sequence_eq_Inl [of "\<lambda>c. decodeEmailBody D (ofPart c)" cs] by blast
    moreover have "e = TypeError" by (cases e) simp
    ultimately show "decodeEmailBody D ?node = Inl TypeError" using n eq by simp
  qed
  have p: "mimeType c = Some (js ''text/plain'') \<and> body c = Some (Some d) \<and> d \<noteq> []
        \<and> decodeBase64 D (JStr d) = Inr decoded
      \<longrightarrow> decodeEmailBody D (ofPart c) = Inr (cleanPlainText D decoded)"
    using decodeEmailBody_plain [of c d D] by auto
  have l: "mimeType c = Some (js ''text/html'') \<and> body c = Some (Some d) \<and> d \<noteq> []
        \<and> decodeBase64 D (JStr d) = Inr decoded
      \<longrightarrow> decodeEmailBody D (ofPart c) = Inr (enhancedCleanEmailContent D decoded)"
    using decodeEmailBody_html [of c d D] by auto
  from a h j t p l show ?thesis by (intro conjI)
qed


text \<open>
  Decoders and parts for the examples: the body data is taken as the decoded text, the
  cleaners are those of src/gmail-auth.js, and the HTML libraries return an empty document.
\<close>

definition sampleDecoders :: decoders where
  "sampleDecoders =
     \<lparr>decodeBase64 = (\<lambda>v. case v of JStr s \<Rightarrow> Inr s | _ \<Rightarrow> Inl TypeError),
      cleanPlainText = ga_cleanPlainText,
      enhancedCleanEmailContent =
        ga_enhancedCleanEmailContent
          \<lparr>cheerio_load = (\<lambda>html. []), cheerio_html = (\<lambda>doc. []), convert = (\<lambda>html. [])\<rparr>\<rparr>"

definition sampleAlternative :: part where
  "sampleAlternative =
     Part (Some (js ''multipart/alternative'')) None
       (Some [Part (Some (js ''text/html'')) (Some (Some (js ''<p>Hi team</p>''))) None,
              Part (Some (js ''text/plain'')) (Some (Some (js ''Hi team\<newline>-- \<newline>Ann''))) None])"

definition sampleMixed :: part where
  "sampleMixed =
     Part (Some (js ''multipart/mixed'')) None
       (Some [sampleAlternative,
              Part (Some (js ''application/pdf'')) (Some None) None,
              Part None None None])"

text \<open>
  An alternative node with neither a \<open>text/plain\<close> nor a \<open>text/html\<close> child: each of its two
  children is a \<open>multipart/related\<close> container around one plain text.
\<close>

definition sampleRelated :: "string \<Rightarrow> part" where
  "sampleRelated text =
     Part (Some (js ''multipart/related'')) None
       (Some [Part (Some (js ''text/plain'')) (Some (Some (js text))) None])"

definition sampleNested :: part where
  "sampleNested =
     Part (Some (js ''multipart/alternative'')) None
       (Some [sampleRelated ''first'', sampleRelated ''second''])"

theorem decodeEmailBody_never_fails_witness:
  "(\<forall>s. \<exists>t. decodeBase64 sampleDecoders (JStr s) = Inr t)
   \<and> (\<exists>text. decodeEmailBody sampleDecoders (ofRoot (Some sampleMixed)) = Inr text)"
proof -
  have d: "\<forall>s. \<exists>t. decodeBase64 sampleDecoders (JStr s) = Inr t"
    by (simp add: sampleDecoders_def)
  from decodeEmailBody_never_fails [OF d, of "Some sampleMixed"] d show ?thesis by blast
qed

lemma decodeEmailBody_sampleRelated:
  assumes "js text \<noteq> []" "ga_cleanPlainText (js text) = js text" "trim (js text) \<noteq> []"
  shows "decodeEmailBody sampleDecoders (ofPart (sampleRelated text)) = Inr (js text)"
proof -
  let ?leaf = "Part (Some (js ''text/plain'')) (Some (Some (js text))) None"
  have leaf: "decodeEmailBody sampleDecoders (ofPart ?leaf) = Inr (js text)"
    using decodeEmailBody_plain [of ?leaf "js text" sampleDecoders] assms
    by (simp add: sampleDecoders_def)
  have "decodeEmailBody sampleDecoders (ofPart (sampleRelated text))
      = (case sequence (map (\<lambda>c. decodeEmailBody sampleDecoders (ofPart c)) [?leaf]) of
           Inl e \<Rightarrow> Inl e
         | Inr texts \<Rightarrow>
             Inr (join [LF] (filter (\<lambda>text. text \<noteq> [] \<and> length (trim text) > 0) texts)))"
    unfolding sampleRelated_def
    by (rule decodeEmailBody_container_eq) (simp_all add: js_def)
  then show ?thesis using assms leaf by (simp del: ofPart.simps)
qed

theorem decodeEmailBody_alternative_witness:
  "find (\<lambda>c. mimeType c = Some (js ''text/plain''))
      [Part (Some (js ''text/html'')) (Some (Some (js ''<p>Hi team</p>''))) None,
       Part (Some (js ''text/plain'')) (Some (Some (js ''Hi team\<newline>-- \<newline>Ann''))) None]
     = Some (Part (Some (js ''text/plain'')) (Some (Some (js ''Hi team\<newline>-- \<newline>Ann''))) None)
   \<and> decodeBase64 sampleDecoders (JStr (js ''Hi team\<newline>-- \<newline>Ann''))
       = Inr (js ''Hi team\<newline>-- \<newline>Ann'')
   \<and> decodeEmailBody sampleDecoders (ofPart sampleAlternative) = Inr (js ''Hi team'')
   \<and> find (\<lambda>c. mimeType c = Some (js ''text/plain''))
        [sampleRelated ''first'', sampleRelated ''second''] = None
   \<and> find (\<lambda>c. mimeType c = Some (js ''text/html''))
        [sampleRelated ''first'', sampleRelated ''second''] = None
   \<and> list_all2 (\<lambda>c text. decodeEmailBody sampleDecoders (ofPart c) = Inr text)
        [sampleRelated ''first'', sampleRelated ''second''] [js ''first'', js ''second'']
   \<and> decodeEmailBody sampleDecoders (ofPart sampleNested) = Inr (js ''first\<newline>second'')"
proof -
  let ?d = "js ''Hi team\<newline>-- \<newline>Ann''"
  let ?c = "Part (Some (js ''text/plain'')) (Some (Some ?d)) None"
  let ?cs = "[Part (Some (js ''text/html'')) (Some (Some (js ''<p>Hi team</p>''))) None, ?c]"
  let ?ns = "[sampleRelated ''first'', sampleRelated ''second'']"
  note plainFirst = decodeEmailBody_alternative [of ?cs ?c sampleDecoders None _ _ ?c ?d ?d]
  note joined = decodeEmailBody_alternative
                  [of ?ns _ sampleDecoders None _ "[js ''first'', js ''second'']"]
  have ne: "?d \<noteq> []" by (simp add: js_def)
  have dec: "decodeBase64 sampleDecoders (JStr ?d) = Inr ?d" by (simp add: sampleDecoders_def)
  have f: "find (\<lambda>c. mimeType c = Some (js ''text/plain'')) ?cs = Some ?c"
    by (simp add: mime_distinct)
  from plainFirst ne dec have leaf: "decodeEmailBody sampleDecoders (ofPart ?c)
      = Inr (cleanPlainText sampleDecoders ?d)" by simp
  from plainFirst f have "decodeEmailBody sampleDecoders (ofPart sampleAlternative)
      = decodeEmailBody sampleDecoders (ofPart ?c)"
    unfolding sampleAlternative_def by simp
  also have "\<dots> = Inr (ga_cleanPlainText ?d)" using leaf by (simp add: sampleDecoders_def)
  also have "ga_cleanPlainText ?d = js ''Hi team''" by (simp add: ev)
  finally have r: "decodeEmailBody sampleDecoders (ofPart sampleAlternative) = Inr (js ''Hi team'')" .
  have np: "find (\<lambda>c. mimeType c = Some (js ''text/plain'')) ?ns = None"
    by (simp add: sampleRelated_def js_def)
  have nh: "find (\<lambda>c. mimeType c = Some (js ''text/html'')) ?ns = None"
    by (simp add: sampleRelated_def js_def)
  have c1: "decodeEmailBody sampleDecoders (ofPart (sampleRelated ''first'')) = Inr (js ''first'')"
    by (rule decodeEmailBody_sampleRelated) (simp_all add: ev)
  have c2: "decodeEmailBody sampleDecoders (ofPart (sampleRelated ''second'')) = Inr (js ''second'')"
    by (rule decodeEmailBody_sampleRelated) (simp_all add: ev)
  from c1 c2 have all: "list_all2 (\<lambda>c text. decodeEmailBody sampleDecoders (ofPart c) = Inr text)
        ?ns [js ''first'', js ''second'']" by simp
  from joined np nh all
  have "decodeEmailBody sampleDecoders (ofPart sampleNested)
      = Inr (join [LF] [js ''first'', js ''second''])"
    unfolding sampleNested_def by simp
  also have "join [LF] [js ''first'', js ''second''] = js ''first\<newline>second''"
    by (simp add: js_def)
  finally have n: "decodeEmailBody sampleDecoders (ofPart sampleNested)
      = Inr (js ''first\<newline>second'')" .
  from f dec r np nh all n show ?thesis by (intro conjI)
qed

section \<open>Grouping by thread (\<open>organizeEmailsByThread\<close>)\<close>

text \<open>
  \<^verbatim>\<open>
  function organizeEmailsByThread(emails) {
    const threads = {};
    emails.forEach(email => {
      if (!threads[email.threadId]) {
        threads[email.threadId] = [];
      }
      threads[email.threadId].push(email);
    });
    Object.values(threads).forEach(threadEmails => {
      threadEmails.sort((a, b) => new Date(a.date) - new Date(b.date));
    });
    return threads;
  }
  \<close>
  \<open>threads\<close> is an ordinary object. Its own properties are kept as a list in the order in
  which they were created. \<open>threads[id]\<close> also finds what an empty object inherits from
  \<open>Object.prototype\<close>: for such an \<open>id\<close> the value is a function (or, for \<open>__proto__\<close>, the
  prototype object), which is truthy and has no \<open>push\<close>, so no array is created and the call
  of \<open>push\<close> throws a TypeError.
\<close>

type_synonym threads = "(jsstring \<times> email list) list"

definition objectPrototypeKeys :: "jsstring list" where
  "objectPrototypeKeys = [js ''constructor'', js ''__defineGetter__'', js ''__defineSetter__'',
     js ''hasOwnProperty'', js ''__lookupGetter__'', js ''__lookupSetter__'', js ''isPrototypeOf'',
     js ''propertyIsEnumerable'', js ''toString'', js ''valueOf'', js ''__proto__'',
     js ''toLocaleString'']"

definition pushEmail :: "threads \<Rightarrow> email \<Rightarrow> threads" where
  "pushEmail st e = map (\<lambda>(k, es). if k = threadId e then (k, es @ [e]) else (k, es)) st"

definition addToThread :: "threads \<Rightarrow> email \<Rightarrow> js_error + threads" where
  "addToThread st e =
     (if threadId e \<in> fst ` set st then Inr (pushEmail st e)
      else if threadId e \<in> set objectPrototypeKeys then Inl TypeError
      else Inr (st @ [(threadId e, [e])]))"

fun groupByThread :: "threads \<Rightarrow> email list \<Rightarrow> js_error + threads" where
  "groupByThread st [] = Inr st"
| "groupByThread st (e # es) =
     (case addToThread st e of Inl err \<Rightarrow> Inl err | Inr st' \<Rightarrow> groupByThread st' es)"

text \<open>
  The comparator. \<open>parseDate s\<close> is the time value of \<open>new Date(s)\<close>, \<open>None\<close> for an invalid
  date (the empty string that stands for a missing \<open>Date\<close> header is one); how a date
  string is parsed is the platform's business and a parameter here. The difference of two
  dates is NaN (\<open>None\<close>) as soon as one of them is invalid.
\<close>

definition compareDates :: "(jsstring \<Rightarrow> int option) \<Rightarrow> email \<Rightarrow> email \<Rightarrow> int option" where
  "compareDates parseDate a b =
     (case parseDate (date a) of
        None \<Rightarrow> None
      | Some x \<Rightarrow> (case parseDate (date b) of None \<Rightarrow> None | Some y \<Rightarrow> Some (x - y)))"

text \<open>
  \<open>Array.prototype.sort\<close> is a built-in of the engine and a parameter of the model,
  \<open>arraySort comparefn xs\<close>. Whatever the engine, it calls the comparator through
  \<open>sortCompare\<close>, which takes a NaN as 0.
\<close>

definition sortCompare :: "('a \<Rightarrow> 'a \<Rightarrow> int option) \<Rightarrow> 'a \<Rightarrow> 'a \<Rightarrow> int" where
  "sortCompare comparefn x y = (case comparefn x y of None \<Rightarrow> 0 | Some v \<Rightarrow> v)"

text \<open>
  The order in which \<open>Object.values\<close> and \<open>Object.entries\<close> enumerate the own properties:
  first the keys that are array indices (canonical decimal numerals up to 4294967294) in
  ascending numeric order, then the other keys in the order of their creation.
\<close>

definition digitValue :: "jsstring \<Rightarrow> nat" where
  "digitValue s = foldl (\<lambda>n c. 10 * n + unat (c - 48)) 0 s"

definition isArrayIndex :: "jsstring \<Rightarrow> bool" where
  "isArrayIndex k =
     (k \<noteq> [] \<and> list_all isDigit k \<and> (k = [48] \<or> hd k \<noteq> 48) \<and> length k \<le> 10
      \<and> digitValue k \<le> 4294967294)"

definition ownPropertyOrder :: "threads \<Rightarrow> threads" where
  "ownPropertyOrder st =
     sort_key (\<lambda>kv. digitValue (fst kv)) (filter (\<lambda>kv. isArrayIndex (fst kv)) st)
       @ filter (\<lambda>kv. \<not> isArrayIndex (fst kv)) st"

text \<open>
  The result is the returned object as its callers read it, the list of its entries in
  enumeration order, or the TypeError.
\<close>

definition organizeEmailsByThread ::
    "((email \<Rightarrow> email \<Rightarrow> int option) \<Rightarrow> email list \<Rightarrow> email list)
      \<Rightarrow> (jsstring \<Rightarrow> int option) \<Rightarrow> email list \<Rightarrow> js_error + threads" where
  "organizeEmailsByThread arraySort parseDate emails =
     (case groupByThread [] emails of
        Inl err \<Rightarrow> Inl err
      | Inr st \<Rightarrow>
          Inr (map (\<lambda>(k, threadEmails). (k, arraySort (compareDates parseDate) threadEmails))
                 (ownPropertyOrder st)))"

subsection \<open>The sort of the engine\<close>

text \<open>
  What ECMAScript asks of \<open>Array.prototype.sort\<close>: the result is a rearrangement of the
  array, and when the comparator is a consistent order of the elements (here: one that
  agrees in sign with comparing a numeric key) it is the sorted arrangement that keeps
  elements of equal key in their order. For a comparator that is not consistent the order
  is left to the implementation.
\<close>

definition sortsAsSpecified ::
    "(('a \<Rightarrow> 'a \<Rightarrow> int option) \<Rightarrow> 'a list \<Rightarrow> 'a list) \<Rightarrow> bool" where
  "sortsAsSpecified arraySort =
     ((\<forall>comparefn xs. mset (arraySort comparefn xs) = mset xs)
      \<and> (\<forall>comparefn xs (key :: 'a \<Rightarrow> int).
            (\<forall>a \<in> set xs. \<forall>b \<in> set xs.
                sgn (sortCompare comparefn a b) = sgn (key a - key b))
            \<longrightarrow> arraySort comparefn xs = sort_key key xs))"

text \<open>
  The program runs on Node, whose engine V8 sorts an array of fewer than 64 elements as a
  single run: \<open>countAndMakeRun\<close> finds the longest run at the start of the array that is
  non-decreasing or strictly decreasing and reverses it in the second case, and
  \<open>binaryInsertionSort\<close> inserts the elements after the run one by one at the place that a
  binary search gives. \<open>order\<close> is the comparator behind \<open>sortCompare\<close>. Longer arrays
  are cut into several such runs that are then merged; that part, \<open>mergeRuns\<close>, is left
  a parameter.
\<close>

fun countRun :: "('a \<Rightarrow> 'a \<Rightarrow> int) \<Rightarrow> bool \<Rightarrow> 'a \<Rightarrow> 'a list \<Rightarrow> nat" where
  "countRun order isDescending previousElement [] = 0"
| "countRun order isDescending previousElement (currentElement # rest) =
     (if (if isDescending then order currentElement previousElement \<ge> 0
          else order currentElement previousElement < 0)
      then 0
      else Suc (countRun order isDescending currentElement rest))"

definition countAndMakeRun :: "('a \<Rightarrow> 'a \<Rightarrow> int) \<Rightarrow> 'a list \<Rightarrow> nat \<times> 'a list" where
  "countAndMakeRun order workArray =
     (case workArray of
        elementHigh # elementLow # rest \<Rightarrow>
          (let isDescending = order elementLow elementHigh < 0;
               runLength = 2 + countRun order isDescending elementLow rest
           in (runLength,
               if isDescending
               then rev (take runLength workArray) @ drop runLength workArray
               else workArray))
      | _ \<Rightarrow> (length workArray, workArray))"

function findInsertionPoint :: "('a \<Rightarrow> 'a \<Rightarrow> int) \<Rightarrow> 'a \<Rightarrow> 'a list \<Rightarrow> nat \<Rightarrow> nat \<Rightarrow> nat" where
  "findInsertionPoint order pivot workArray left right =
     (if left < right
      then (let mid = left + (right - left) div 2
            in if order pivot (workArray ! mid) < 0
               then findInsertionPoint order pivot workArray left mid
               else findInsertionPoint order pivot workArray (mid + 1) right)
      else left)"
  by pat_completeness auto
termination
  by (relation "measure (\<lambda>(order, pivot, workArray, left, right). right - left)") auto

declare findInsertionPoint.simps [simp del]

definition insertAt :: "nat \<Rightarrow> 'a \<Rightarrow> 'a list \<Rightarrow> 'a list" where
  "insertAt left pivot workArray = take left workArray @ pivot # drop left workArray"

fun binaryInsertionSort :: "('a \<Rightarrow> 'a \<Rightarrow> int) \<Rightarrow> 'a list \<Rightarrow> 'a list \<Rightarrow> 'a list" where
  "binaryInsertionSort order sortedPart [] = sortedPart"
| "binaryInsertionSort order sortedPart (pivot # rest) =
     binaryInsertionSort order
       (insertAt (findInsertionPoint order pivot sortedPart 0 (length sortedPart)) pivot sortedPart)
       rest"

definition sortShortArray :: "('a \<Rightarrow> 'a \<Rightarrow> int) \<Rightarrow> 'a list \<Rightarrow> 'a list" where
  "sortShortArray order workArray =
     (if length workArray < 2 then workArray
      else (let (runLength, withRun) = countAndMakeRun order workArray
            in binaryInsertionSort order (take runLength withRun) (drop runLength withRun)))"

definition v8Sort ::
    "(('a \<Rightarrow> 'a \<Rightarrow> int option) \<Rightarrow> 'a list \<Rightarrow> 'a list)
      \<Rightarrow> ('a \<Rightarrow> 'a \<Rightarrow> int option) \<Rightarrow> 'a list \<Rightarrow> 'a list" where
  "v8Sort mergeRuns comparefn xs =
     (if length xs < 64 then sortShortArray (sortCompare comparefn) xs
      else mergeRuns comparefn xs)"

text \<open>The distinct elements of a list in the order of their first occurrence.\<close>

function firstSeen :: "'a list \<Rightarrow> 'a list" where
  "firstSeen [] = []"
| "firstSeen (x # xs) = x # firstSeen (filter (\<lambda>y. y \<noteq> x) xs)"
  by pat_completeness auto
termination
  by (relation "measure length") (auto simp: le_imp_less_Suc)

text \<open>
  For the examples: a stand-in for the date parser on year strings, which are valid dates
  whose time grows with the year, and records with only the fields that matter here.
\<close>

definition sampleParseDate :: "jsstring \<Rightarrow> int option" where
  "sampleParseDate s = (if s \<noteq> [] \<and> list_all isDigit s then Some (int (digitValue s)) else None)"

definition mail :: "string \<Rightarrow> string \<Rightarrow> string \<Rightarrow> email" where
  "mail i t d = \<lparr>id_e = js i, threadId = js t, date = js d, from_e = [], to_e = [],
                 subject = [], body_e = []\<rparr>"

text \<open>The equations that evaluate the grouping on concrete records.\<close>

lemma findInsertionPoint_stop:
  "\<not> left < right \<Longrightarrow> findInsertionPoint order pivot workArray left right = left"
  by (subst findInsertionPoint.simps) simp

lemma findInsertionPoint_step:
  "left < right \<Longrightarrow>
   findInsertionPoint order pivot workArray left right =
     (if order pivot (workArray ! (left + (right - left) div 2)) < 0
      then findInsertionPoint order pivot workArray left (left + (right - left) div 2)
      else findInsertionPoint order pivot workArray (left + (right - left) div 2 + 1) right)"
  by (subst findInsertionPoint.simps) (simp add: Let_def)

lemmas ev4 = organizeEmailsByThread_def ownPropertyOrder_def isArrayIndex_def digitValue_def
  v8Sort_def sortShortArray_def countAndMakeRun_def insertAt_def
  findInsertionPoint_stop findInsertionPoint_step div2_Suc_Suc sortCompare_def
  compareDates_def addToThread_def pushEmail_def objectPrototypeKeys_def
  sampleParseDate_def mail_def js_def isDigit_def Let_def


subsection \<open>The groups\<close>

lemma firstSeen_filter: "firstSeen (filter P xs) = filter P (firstSeen xs)"
proof (induction xs rule: firstSeen.induct)
  case 1
  show ?case by simp
next
  case (2 x xs)
  have c: "filter (\<lambda>y. y \<noteq> x) (filter P xs) = filter P (filter (\<lambda>y. y \<noteq> x) xs)"
    by (simp add: conj_commute)
  show ?case
  proof (cases "P x")
    case True
    with 2 c show ?thesis by simp
  next
    case False
    then have "filter P xs = filter P (filter (\<lambda>y. y \<noteq> x) xs)"
      by (auto intro: filter_cong)
    with False 2 show ?thesis by simp
  qed
qed

lemma set_firstSeen: "set (firstSeen xs) = set xs"
  by (induction xs rule: firstSeen.induct) auto

lemma distinct_firstSeen: "distinct (firstSeen xs)"
  by (induction xs rule: firstSeen.induct) (auto simp: set_firstSeen)

lemma map_fst_pushEmail: "map fst (pushEmail st e) = map fst st"
  by (induction st) (auto simp: pushEmail_def)

lemma map_of_pushEmail:
  "map_of (pushEmail st e) k
     = (if k = threadId e then map_option (\<lambda>es. es @ [e]) (map_of st k) else map_of st k)"
  by (induction st) (auto simp: pushEmail_def)

lemma groupByThread_keys:
  "groupByThread st es = Inr st' \<Longrightarrow>
   map fst st' = map fst st @ firstSeen (filter (\<lambda>k. k \<notin> fst ` set st) (map threadId es))"
proof (induction es arbitrary: st)
  case Nil
  then show ?case by simp
next
  case (Cons e es)
  show ?case
  proof (cases "threadId e \<in> fst ` set st")
    case True
    with Cons.prems have "groupByThread (pushEmail st e) es = Inr st'"
      by (simp add: addToThread_def)
    from Cons.IH [OF this] True show ?thesis
      by (simp add: map_fst_pushEmail flip: set_map)
  next
    case False
    with Cons.prems have g: "groupByThread (st @ [(threadId e, [e])]) es = Inr st'"
      by (auto simp: addToThread_def split: if_splits)
    have f: "filter (\<lambda>k. k \<notin> fst ` set (st @ [(threadId e, [e])])) (map threadId es)
        = filter (\<lambda>y. y \<noteq> threadId e) (filter (\<lambda>k. k \<notin> fst ` set st) (map threadId es))"
      by (auto intro: filter_cong)
    from Cons.IH [OF g] False show ?thesis by (simp add: f conj_commute)
  qed
qed

lemma groupByThread_values:
  "groupByThread st es = Inr st' \<Longrightarrow> distinct (map fst st) \<Longrightarrow>
   map_of st' k
     = (case map_of st k of
          Some v \<Rightarrow> Some (v @ filter (\<lambda>e. threadId e = k) es)
        | None \<Rightarrow> if k \<in> threadId ` set es then Some (filter (\<lambda>e. threadId e = k) es) else None)"
proof (induction es arbitrary: st)
  case Nil
  then show ?case by (simp split: option.splits)
next
  case (Cons e es)
  show ?case
  proof (cases "threadId e \<in> fst ` set st")
    case True
    with Cons.prems have g: "groupByThread (pushEmail st e) es = Inr st'"
      by (simp add: addToThread_def)
    have d: "distinct (map fst (pushEmail st e))" using Cons.prems by (simp add: map_fst_pushEmail)
    from True obtain v where v: "map_of st (threadId e) = Some v"
      by (metis domD dom_map_of_conv_image_fst)
    from Cons.IH [OF g d] v show ?thesis
      by (auto simp: map_of_pushEmail split: option.splits)
  next
    case False
    with Cons.prems have g: "groupByThread (st @ [(threadId e, [e])]) es = Inr st'"
      by (auto simp: addToThread_def split: if_splits)
    have d: "distinct (map fst (st @ [(threadId e, [e])]))"
      using Cons.prems False by (auto simp flip: set_map)
    from False have n: "map_of st (threadId e) = None"
      by (metis domIff dom_map_of_conv_image_fst)
    from Cons.IH [OF g d] n show ?thesis
      by (auto simp: map_add_def split: option.splits)
  qed
qed

lemma groupByThread_ok:
  "\<forall>e \<in> set es. threadId e \<notin> set objectPrototypeKeys \<Longrightarrow> \<exists>st'. groupByThread st es = Inr st'"
  by (induction es arbitrary: st) (auto simp: addToThread_def)


subsection \<open>V8's sort of a short array\<close>

lemma mset_insert_at: "mset (take n xs @ x # drop n xs) = add_mset x (mset xs)"
proof -
  have "mset (take n xs @ x # drop n xs) = add_mset x (mset (take n xs @ drop n xs))"
    by (simp only: mset_append mset.simps union_mset_add_mset_right)
  then show ?thesis by simp
qed

lemma mset_take_drop: "mset (take n xs) + mset (drop n xs) = mset xs"
  by (metis append_take_drop_id mset_append)

lemma mset_binaryInsertionSort:
  "mset (binaryInsertionSort order sortedPart rest) = mset sortedPart + mset rest"
  by (induction rest arbitrary: sortedPart) (simp_all add: insertAt_def mset_take_drop)

lemma countRun_le: "countRun order d prev rest \<le> length rest"
  by (induction rest arbitrary: prev) simp_all

lemma countAndMakeRun_parts:
  assumes "countAndMakeRun order xs = (n, ys)"
  shows "n \<le> length xs" "mset (take n ys) = mset (take n xs)" "drop n ys = drop n xs"
proof -
  show "n \<le> length xs"
  proof (cases xs)
    case Nil
    with assms show ?thesis by (simp add: countAndMakeRun_def)
  next
    case (Cons a as)
    show ?thesis
    proof (cases as)
      case Nil
      with Cons assms show ?thesis by (auto simp: countAndMakeRun_def)
    next
      case c: (Cons b bs)
      have "countRun order d b bs \<le> length bs" for d by (rule countRun_le)
      with Cons c assms show ?thesis by (auto simp: countAndMakeRun_def Let_def)
    qed
  qed
  then have "length (take n xs) = n" by simp
  moreover from assms have "ys = xs \<or> ys = rev (take n xs) @ drop n xs"
    by (auto simp: countAndMakeRun_def Let_def split: list.splits if_splits)
  ultimately show "mset (take n ys) = mset (take n xs)" "drop n ys = drop n xs"
    by auto
qed

lemma mset_sortShortArray: "mset (sortShortArray order xs) = mset xs"
proof (cases "length xs < 2")
  case True
  then show ?thesis by (simp add: sortShortArray_def)
next
  case False
  obtain n ys where r: "countAndMakeRun order xs = (n, ys)" by (cases "countAndMakeRun order xs")
  have "mset (take n ys) + mset (drop n ys) = mset xs"
    using countAndMakeRun_parts(2,3) [OF r] by (simp add: mset_take_drop)
  with False r show ?thesis by (simp add: sortShortArray_def mset_binaryInsertionSort)
qed

text \<open>
  From here on the comparator agrees with comparing a key: \<open>order a b < 0\<close> exactly when
  the key of \<open>a\<close> is smaller. The run at the start of the array is then sorted by key,
  also after the reversal of a strictly decreasing one.
\<close>

lemma countRun_ascending:
  assumes "\<forall>a \<in> S. \<forall>b \<in> S. (order a b < 0) = (key a < (key b :: int))"
  shows "set (prev # rest) \<subseteq> S \<Longrightarrow>
         sorted (map key (prev # take (countRun order False prev rest) rest))"
proof (induction rest arbitrary: prev)
  case Nil
  show ?case by simp
next
  case (Cons c rest)
  show ?case
  proof (cases "order c prev < 0")
    case True
    then show ?thesis by simp
  next
    case False
    moreover from assms Cons.prems have "(order c prev < 0) = (key c < key prev)" by simp
    ultimately have le: "key prev \<le> key c" by simp
    from Cons.IH [of c] Cons.prems
    have s: "sorted (map key (c # take (countRun order False c rest) rest))" by simp
    from le s have "\<forall>y \<in> set (map key (c # take (countRun order False c rest) rest)). key prev \<le> y"
      by (auto simp del: set_map)
    with s False show ?thesis by (simp del: set_map)
  qed
qed

lemma countRun_descending:
  assumes "\<forall>a \<in> S. \<forall>b \<in> S. (order a b < 0) = (key a < (key b :: int))"
  shows "set (prev # rest) \<subseteq> S \<Longrightarrow>
         sorted_wrt (\<lambda>x y. y < x) (map key (prev # take (countRun order True prev rest) rest))"
proof (induction rest arbitrary: prev)
  case Nil
  show ?case by simp
next
  case (Cons c rest)
  show ?case
  proof (cases "order c prev \<ge> 0")
    case True
    then show ?thesis by simp
  next
    case False
    moreover from assms Cons.prems have "(order c prev < 0) = (key c < key prev)" by simp
    ultimately have lt: "key c < key prev" by simp
    from Cons.IH [of c] Cons.prems
    have s: "sorted_wrt (\<lambda>x y. y < x) (map key (c # take (countRun order True c rest) rest))"
      by simp
    from lt s have "\<forall>y \<in> set (map key (c # take (countRun order True c rest) rest)). y < key prev"
      by (auto simp del: set_map)
    with s False show ?thesis by (simp del: set_map)
  qed
qed

lemma filter_key_distinct:
  "distinct (map f ys) \<Longrightarrow> k \<in> set ys \<Longrightarrow> filter (\<lambda>x. f k = f x) ys = [k]"
proof (induction ys)
  case Nil
  then show ?case by simp
next
  case (Cons y ys)
  show ?case
  proof (cases "k = y")
    case True
    from Cons.prems have "f y \<notin> f ` set ys" by simp
    then have "\<forall>x \<in> set ys. f y \<noteq> f x" by (metis image_eqI)
    then have "filter (\<lambda>x. f y = f x) ys = []" by (simp add: filter_empty_conv)
    with True show ?thesis by simp
  next
    case False
    with Cons.prems have k: "k \<in> set ys" by simp
    from Cons.prems have "f y \<notin> f ` set ys" by simp
    with k have "f k \<noteq> f y" by (metis image_eqI)
    with Cons k show ?thesis by simp
  qed
qed

lemma sort_key_rev_descending:
  fixes key :: "'a \<Rightarrow> int"
  assumes "sorted_wrt (\<lambda>x y. y < x) (map key ys)"
  shows "sort_key key ys = rev ys"
proof (rule properties_for_sort_key)
  show "mset (rev ys) = mset ys" by simp
  have inc: "sorted_wrt (<) (map key (rev ys))"
    using assms by (simp add: sorted_wrt_rev flip: rev_map)
  then show "sorted (map key (rev ys))" by (simp add: strict_sorted_iff)
  from inc have "distinct (map key (rev ys))" by (simp add: strict_sorted_iff)
  then have d: "distinct (map key ys)" by (simp add: distinct_rev flip: rev_map)
  fix k assume "k \<in> set (rev ys)"
  then have k: "k \<in> set ys" by simp
  from d k have "filter (\<lambda>x. key k = key x) ys = [k]" by (rule filter_key_distinct)
  moreover have "filter (\<lambda>x. key k = key x) (rev ys) = rev (filter (\<lambda>x. key k = key x) ys)"
    by (simp add: rev_filter)
  ultimately show "filter (\<lambda>x. key k = key x) (rev ys) = filter (\<lambda>x. key k = key x) ys"
    by simp
qed

lemma countAndMakeRun_sorted:
  fixes key :: "'a \<Rightarrow> int"
  assumes agree: "\<forall>a \<in> set xs. \<forall>b \<in> set xs. (order a b < 0) = (key a < key b)"
    and run: "countAndMakeRun order xs = (n, ys)"
  shows "take n ys = sort_key key (take n xs)"
proof (cases xs)
  case Nil
  with run show ?thesis by (simp add: countAndMakeRun_def)
next
  case (Cons hi as)
  show ?thesis
  proof (cases as)
    case Nil
    with Cons run show ?thesis by (auto simp: countAndMakeRun_def)
  next
    case c: (Cons lo rest)
    let ?d = "order lo hi < 0"
    let ?m = "countRun order ?d lo rest"
    from run Cons c have n: "n = 2 + ?m" by (auto simp: countAndMakeRun_def Let_def)
    have tk: "take n xs = hi # lo # take ?m rest" by (simp add: n Cons c)
    have sub: "set (lo # rest) \<subseteq> set xs" by (auto simp: Cons c)
    have hi: "hi \<in> set xs" "lo \<in> set xs" by (simp_all add: Cons c)
    show ?thesis
    proof (cases ?d)
      case False
      with run Cons c have ys: "ys = xs" by (auto simp: countAndMakeRun_def Let_def)
      from agree hi have "(order lo hi < 0) = (key lo < key hi)" by simp
      with False have le: "key hi \<le> key lo" by simp
      have s: "sorted (map key (lo # take ?m rest))"
        using countRun_ascending [OF agree sub] False by simp
      with le have "\<forall>y \<in> set (map key (lo # take ?m rest)). key hi \<le> y"
        by (auto simp del: set_map)
      with s have "sorted (map key (take n xs))" by (simp add: tk del: set_map)
      then show ?thesis by (simp add: ys sort_key_id_if_sorted)
    next
      case True
      with run Cons c have ys: "ys = rev (take n xs) @ drop n xs"
        by (auto simp: countAndMakeRun_def Let_def n)
      have len: "length (rev (take n xs)) = n"
        using countAndMakeRun_parts(1) [OF run] by simp
      from agree hi have "(order lo hi < 0) = (key lo < key hi)" by simp
      with True have lt: "key lo < key hi" by simp
      have s: "sorted_wrt (\<lambda>x y. y < x) (map key (lo # take ?m rest))"
        using countRun_descending [OF agree sub] True by simp
      with lt have "\<forall>y \<in> set (map key (lo # take ?m rest)). y < key hi"
        by (auto simp del: set_map)
      with s have "sorted_wrt (\<lambda>x y. y < x) (map key (take n xs))" by (simp add: tk del: set_map)
      then have "sort_key key (take n xs) = rev (take n xs)" by (rule sort_key_rev_descending)
      moreover have "take n ys = rev (take n xs)" using len by (simp add: ys)
      ultimately show ?thesis by simp
    qed
  qed
qed

text \<open>
  The binary search returns the place behind the elements whose key is not greater than
  the pivot's, so that the pivot goes behind its equals.
\<close>

lemma findInsertionPoint_place:
  fixes key :: "'a \<Rightarrow> int"
  shows "sorted (map key s) \<Longrightarrow> \<forall>b \<in> set s. (order pivot b < 0) = (key pivot < key b)
     \<Longrightarrow> left \<le> right \<Longrightarrow> right \<le> length s
     \<Longrightarrow> \<forall>i < left. key (s ! i) \<le> key pivot
     \<Longrightarrow> \<forall>i. right \<le> i \<and> i < length s \<longrightarrow> key pivot < key (s ! i)
     \<Longrightarrow> findInsertionPoint order pivot s left right \<le> length s
         \<and> (\<forall>i < findInsertionPoint order pivot s left right. key (s ! i) \<le> key pivot)
         \<and> (\<forall>i. findInsertionPoint order pivot s left right \<le> i \<and> i < length s
                \<longrightarrow> key pivot < key (s ! i))"
proof (induction order pivot s left right rule: findInsertionPoint.induct)
  case (1 order pivot s left right)
  note srt = "1.prems"(1) and agree = "1.prems"(2)
  show ?case
  proof (cases "left < right")
    case False
    then have "findInsertionPoint order pivot s left right = left"
      by (subst findInsertionPoint.simps) simp
    with False "1.prems" show ?thesis by simp
  next
    case True
    define mid where "mid = left + (right - left) div 2"
    from True have m: "left \<le> mid" "mid < right" by (simp_all add: mid_def)
    with "1.prems" have ms: "mid < length s" by simp
    then have mem: "s ! mid \<in> set s" by simp
    have mono: "key (s ! i) \<le> key (s ! j)" if "i \<le> j" "j < length s" for i j
      using srt that sorted_nth_mono [of "map key s" i j] by simp
    show ?thesis
    proof (cases "order pivot (s ! mid) < 0")
      case lt: True
      with agree mem have k: "key pivot < key (s ! mid)" by simp
      have up: "\<forall>i. mid \<le> i \<and> i < length s \<longrightarrow> key pivot < key (s ! i)"
      proof (intro allI impI)
        fix i assume "mid \<le> i \<and> i < length s"
        then have "key (s ! mid) \<le> key (s ! i)" using mono by simp
        with k show "key pivot < key (s ! i)" by simp
      qed
      have eq: "findInsertionPoint order pivot s left right
                  = findInsertionPoint order pivot s left mid"
        using True lt by (subst findInsertionPoint.simps) (simp add: mid_def Let_def)
      have "findInsertionPoint order pivot s left mid \<le> length s
         \<and> (\<forall>i < findInsertionPoint order pivot s left mid. key (s ! i) \<le> key pivot)
         \<and> (\<forall>i. findInsertionPoint order pivot s left mid \<le> i \<and> i < length s
                \<longrightarrow> key pivot < key (s ! i))"
      proof (rule "1.IH"(1) [OF True mid_def])
        show "order pivot (s ! mid) < 0" by (rule lt)
        show "sorted (map key s)" by (rule srt)
        show "\<forall>b \<in> set s. (order pivot b < 0) = (key pivot < key b)" by (rule agree)
        show "left \<le> mid" by (rule m)
        show "mid \<le> length s" using ms by simp
        show "\<forall>i < left. key (s ! i) \<le> key pivot" by (rule "1.prems"(5))
        show "\<forall>i. mid \<le> i \<and> i < length s \<longrightarrow> key pivot < key (s ! i)" by (rule up)
      qed
      with eq show ?thesis by simp
    next
      case ge: False
      with agree mem have k: "key (s ! mid) \<le> key pivot" by simp
      have low: "\<forall>i < mid + 1. key (s ! i) \<le> key pivot"
      proof (intro allI impI)
        fix i assume "i < mid + 1"
        then have "key (s ! i) \<le> key (s ! mid)" using mono ms by simp
        with k show "key (s ! i) \<le> key pivot" by simp
      qed
      have eq: "findInsertionPoint order pivot s left right
              = findInsertionPoint order pivot s (mid + 1) right"
        using True ge by (subst findInsertionPoint.simps) (simp add: mid_def Let_def)
      have "findInsertionPoint order pivot s (mid + 1) right \<le> length s
         \<and> (\<forall>i < findInsertionPoint order pivot s (mid + 1) right. key (s ! i) \<le> key pivot)
         \<and> (\<forall>i. findInsertionPoint order pivot s (mid + 1) right \<le> i \<and> i < length s
                \<longrightarrow> key pivot < key (s ! i))"
      proof (rule "1.IH"(2) [OF True mid_def])
        show "\<not> order pivot (s ! mid) < 0" by (rule ge)
        show "sorted (map key s)" by (rule srt)
        show "\<forall>b \<in> set s. (order pivot b < 0) = (key pivot < key b)" by (rule agree)
        show "mid + 1 \<le> right" using m by simp
        show "right \<le> length s" by (rule "1.prems"(4))
        show "\<forall>i < mid + 1. key (s ! i) \<le> key pivot" by (rule low)
        show "\<forall>i. right \<le> i \<and> i < length s \<longrightarrow> key pivot < key (s ! i)"
          by (rule "1.prems"(6))
      qed
      with eq show ?thesis by simp
    qed
  qed
qed

text \<open>
  So each insertion gives the stable sorted arrangement of the elements taken so far, and
  the whole procedure that of the array.
\<close>

lemma insert_at_point:
  fixes key :: "'a \<Rightarrow> int"
  assumes s: "s = sort_key key pre"
    and agree: "\<forall>b \<in> set pre. (order pivot b < 0) = (key pivot < key b)"
  shows "take (findInsertionPoint order pivot s 0 (length s)) s
           @ pivot # drop (findInsertionPoint order pivot s 0 (length s)) s
         = sort_key key (pre @ [pivot])"
proof -
  let ?p = "findInsertionPoint order pivot s 0 (length s)"
  let ?ys = "take ?p s @ pivot # drop ?p s"
  have srt: "sorted (map key s)" by (simp add: s)
  have ag: "\<forall>b \<in> set s. (order pivot b < 0) = (key pivot < key b)" using agree by (simp add: s)
  have place: "?p \<le> length s \<and> (\<forall>i < ?p. key (s ! i) \<le> key pivot)
         \<and> (\<forall>i. ?p \<le> i \<and> i < length s \<longrightarrow> key pivot < key (s ! i))"
    using findInsertionPoint_place [of key s order pivot 0 "length s"] srt ag by simp
  have before: "\<forall>x \<in> set (take ?p s). key x \<le> key pivot"
  proof
    fix x assume "x \<in> set (take ?p s)"
    then obtain i where "i < length (take ?p s)" "x = take ?p s ! i"
      by (auto simp: in_set_conv_nth)
    with place show "key x \<le> key pivot" by simp
  qed
  have after: "\<forall>x \<in> set (drop ?p s). key pivot < key x"
  proof
    fix x assume "x \<in> set (drop ?p s)"
    then obtain i where i: "i < length (drop ?p s)" "x = drop ?p s ! i"
      by (auto simp: in_set_conv_nth)
    then have "x = s ! (?p + i)" "?p + i < length s" using place by simp_all
    with place show "key pivot < key x" by simp
  qed
  show ?thesis
  proof (rule properties_for_sort_key [symmetric])
    show "mset ?ys = mset (pre @ [pivot])" by (simp add: mset_take_drop s)
    have s1: "sorted (map key (take ?p s))"
      using srt sorted_wrt_take [of "(\<le>)" "map key s" ?p] by (simp add: take_map)
    have s2: "sorted (map key (drop ?p s))"
      using srt sorted_wrt_drop [of "(\<le>)" "map key s" ?p] by (simp add: drop_map)
    from after have after': "\<forall>x \<in> set (drop ?p s). key pivot \<le> key x" by fastforce
    from before after' have cross: "\<forall>x \<in> set (take ?p s). \<forall>y \<in> set (drop ?p s). key x \<le> key y"
      by fastforce
    show "sorted (map key ?ys)"
      by (simp add: sorted_append s1 s2 before after' cross)
    fix k assume "k \<in> set ?ys"
    let ?P = "\<lambda>x. key k = key x"
    have P: "?P = (\<lambda>x. key x = key k)" by auto
    have fs: "filter ?P s = filter ?P pre" unfolding P s by (rule sort_key_stable)
    have split: "filter ?P (take ?p s) @ filter ?P (drop ?p s) = filter ?P pre"
      using fs by (metis append_take_drop_id filter_append)
    show "filter ?P ?ys = filter ?P (pre @ [pivot])"
    proof (cases "key k = key pivot")
      case True
      with after have "filter ?P (drop ?p s) = []" by (auto simp: filter_empty_conv)
      with split True show ?thesis by simp
    next
      case False
      with split show ?thesis by simp
    qed
  qed
qed

lemma binaryInsertionSort_sort_key:
  fixes key :: "'a \<Rightarrow> int"
  shows "\<forall>a \<in> set (pre @ rest). \<forall>b \<in> set (pre @ rest). (order a b < 0) = (key a < key b)
     \<Longrightarrow> s = sort_key key pre
     \<Longrightarrow> binaryInsertionSort order s rest = sort_key key (pre @ rest)"
proof (induction rest arbitrary: s pre)
  case Nil
  then show ?case by simp
next
  case (Cons pivot rest)
  let ?p = "findInsertionPoint order pivot s 0 (length s)"
  have "take ?p s @ pivot # drop ?p s = sort_key key (pre @ [pivot])"
    using Cons.prems by (intro insert_at_point) simp_all
  moreover have "\<forall>a \<in> set ((pre @ [pivot]) @ rest). \<forall>b \<in> set ((pre @ [pivot]) @ rest).
      (order a b < 0) = (key a < key b)"
    using Cons.prems(1) by simp
  ultimately have "binaryInsertionSort order (take ?p s @ pivot # drop ?p s) rest
      = sort_key key ((pre @ [pivot]) @ rest)"
    by (intro Cons.IH)
  then show ?case by (simp add: insertAt_def)
qed

lemma sortShortArray_sort_key:
  fixes key :: "'a \<Rightarrow> int"
  assumes "\<forall>a \<in> set xs. \<forall>b \<in> set xs. (order a b < 0) = (key a < key b)"
  shows "sortShortArray order xs = sort_key key xs"
proof (cases "length xs < 2")
  case True
  then have "sort_key key xs = xs" by (cases xs; cases "tl xs") auto
  with True show ?thesis by (simp add: sortShortArray_def)
next
  case False
  obtain n ys where r: "countAndMakeRun order xs = (n, ys)" by (cases "countAndMakeRun order xs")
  have run: "take n ys = sort_key key (take n xs)"
    by (rule countAndMakeRun_sorted [OF assms r])
  have rest: "drop n ys = drop n xs" by (rule countAndMakeRun_parts(3) [OF r])
  have "binaryInsertionSort order (take n ys) (drop n xs) = sort_key key (take n xs @ drop n xs)"
    using assms run by (intro binaryInsertionSort_sort_key) simp_all
  with False r rest show ?thesis by (simp add: sortShortArray_def)
qed

text \<open>
  V8's sort does what ECMAScript asks, on long arrays provided that the merging does.
\<close>

lemma sgn_negative: "sgn (x :: int) = sgn y \<Longrightarrow> (x < 0) = (y < 0)"
  by (auto simp: sgn_if split: if_splits)

lemma v8Sort_sortsAsSpecified:
  assumes "sortsAsSpecified mergeRuns"
  shows "sortsAsSpecified (v8Sort mergeRuns)"
  unfolding sortsAsSpecified_def
proof (intro conjI allI impI)
  fix comparefn :: "'a \<Rightarrow> 'a \<Rightarrow> int option" and xs
  show "mset (v8Sort mergeRuns comparefn xs) = mset xs"
    using assms by (simp add: v8Sort_def mset_sortShortArray sortsAsSpecified_def)
next
  fix comparefn :: "'a \<Rightarrow> 'a \<Rightarrow> int option" and xs and key :: "'a \<Rightarrow> int"
  assume c: "\<forall>a \<in> set xs. \<forall>b \<in> set xs. sgn (sortCompare comparefn a b) = sgn (key a - key b)"
  have "\<forall>a \<in> set xs. \<forall>b \<in> set xs. (sortCompare comparefn a b < 0) = (key a < key b)"
  proof (intro ballI)
    fix a b assume "a \<in> set xs" "b \<in> set xs"
    with c have "sgn (sortCompare comparefn a b) = sgn (key a - key b)" by simp
    then show "(sortCompare comparefn a b < 0) = (key a < key b)"
      using sgn_negative [of "sortCompare comparefn a b" "key a - key b"] by simp
  qed
  then have short: "sortShortArray (sortCompare comparefn) xs = sort_key key xs"
    by (rule sortShortArray_sort_key)
  from assms have "\<forall>comparefn xs (key :: 'a \<Rightarrow> int).
      (\<forall>a \<in> set xs. \<forall>b \<in> set xs. sgn (sortCompare comparefn a b) = sgn (key a - key b))
      \<longrightarrow> mergeRuns comparefn xs = sort_key key xs"
    by (simp add: sortsAsSpecified_def)
  then have "(\<forall>a \<in> set xs. \<forall>b \<in> set xs. sgn (sortCompare comparefn a b) = sgn (key a - key b))
      \<longrightarrow> mergeRuns comparefn xs = sort_key key xs"
    by (elim allE)
  with c have "mergeRuns comparefn xs = sort_key key xs" by (elim impE) assumption
  with short show "v8Sort mergeRuns comparefn xs = sort_key key xs" by (simp add: v8Sort_def)
qed

lemma sortShortArray_sortsAsSpecified:
  "sortsAsSpecified (\<lambda>comparefn. sortShortArray (sortCompare comparefn))"
  unfolding sortsAsSpecified_def
proof (intro conjI allI impI)
  fix comparefn :: "'a \<Rightarrow> 'a \<Rightarrow> int option" and xs
  show "mset (sortShortArray (sortCompare comparefn) xs) = mset xs"
    by (rule mset_sortShortArray)
next
  fix comparefn :: "'a \<Rightarrow> 'a \<Rightarrow> int option" and xs and key :: "'a \<Rightarrow> int"
  assume c: "\<forall>a \<in> set xs. \<forall>b \<in> set xs. sgn (sortCompare comparefn a b) = sgn (key a - key b)"
  have "\<forall>a \<in> set xs. \<forall>b \<in> set xs. (sortCompare comparefn a b < 0) = (key a < key b)"
  proof (intro ballI)
    fix a b assume "a \<in> set xs" "b \<in> set xs"
    with c have "sgn (sortCompare comparefn a b) = sgn (key a - key b)" by simp
    then show "(sortCompare comparefn a b < 0) = (key a < key b)"
      using sgn_negative [of "sortCompare comparefn a b" "key a - key b"] by simp
  qed
  then show "sortShortArray (sortCompare comparefn) xs = sort_key key xs"
    by (rule sortShortArray_sort_key)
qed

subsection \<open>The order of the groups\<close>

lemma mset_ownPropertyOrder: "mset (ownPropertyOrder st) = mset st"
  by (simp add: ownPropertyOrder_def)

lemma set_ownPropertyOrder: "set (ownPropertyOrder st) = set st"
  using mset_ownPropertyOrder by (metis set_mset_mset)

lemma distinct_ownPropertyOrder:
  "distinct (map fst st) \<Longrightarrow> distinct (map fst (ownPropertyOrder st))"
proof -
  have "mset (map fst (ownPropertyOrder st)) = mset (map fst st)"
    using mset_ownPropertyOrder [of st] by (metis mset_map)
  then show "distinct (map fst st) \<Longrightarrow> distinct (map fst (ownPropertyOrder st))"
    by (metis mset_eq_imp_distinct_iff)
qed

lemma ownPropertyOrder_plain:
  "\<forall>kv \<in> set st. \<not> isArrayIndex (fst kv) \<Longrightarrow> ownPropertyOrder st = st"
  by (simp add: ownPropertyOrder_def)

lemma map_fst_sorted_groups:
  "map fst (map (\<lambda>(k, es). (k, g es)) st) = map fst st"
  by (induction st) auto

text \<open>
  What the function does right, for every engine whose sort does what ECMAScript asks and
  for every list of records none of whose \<open>threadId\<close> is a name that an empty object
  inherits: it returns exactly one group per distinct \<open>threadId\<close>, each holding exactly the
  records of that thread, and the groups are enumerated in first-seen order when no
  \<open>threadId\<close> is an array index. A group all of whose dates parse is in non-decreasing
  date order, with the records of equal date in their original relative order, and a group
  none of whose dates parse keeps its order.
\<close>

lemma organizeEmailsByThread_groups:
  assumes engine: "sortsAsSpecified arraySort"
    and ids: "\<forall>e \<in> set emails. threadId e \<notin> set objectPrototypeKeys"
  shows "\<exists>groups. organizeEmailsByThread arraySort parseDate emails = Inr groups
     \<and> distinct (map fst groups) \<and> set (map fst groups) = threadId ` set emails
     \<and> ((\<forall>e \<in> set emails. \<not> isArrayIndex (threadId e))
          \<longrightarrow> map fst groups = firstSeen (map threadId emails))
     \<and> (\<forall>(k, es) \<in> set groups.
           mset es = mset (filter (\<lambda>e. threadId e = k) emails)
           \<and> ((\<forall>e \<in> set es. parseDate (date e) \<noteq> None) \<longrightarrow>
                 sorted (map (\<lambda>e. the (parseDate (date e))) es)
                 \<and> (\<forall>d. filter (\<lambda>e. the (parseDate (date e)) = d) es
                        = filter (\<lambda>e. the (parseDate (date e)) = d)
                            (filter (\<lambda>e. threadId e = k) emails)))
           \<and> ((\<forall>e \<in> set es. parseDate (date e) = None) \<longrightarrow>
                 es = filter (\<lambda>e. threadId e = k) emails))"
proof -
  let ?cmp = "compareDates parseDate"
  let ?key = "\<lambda>e. the (parseDate (date e))"
  from engine have perm: "mset (arraySort ?cmp xs) = mset xs" for xs
    by (simp add: sortsAsSpecified_def)
  from engine have "\<forall>comparefn xs (key :: email \<Rightarrow> int).
      (\<forall>a \<in> set xs. \<forall>b \<in> set xs. sgn (sortCompare comparefn a b) = sgn (key a - key b))
      \<longrightarrow> arraySort comparefn xs = sort_key key xs"
    by (simp add: sortsAsSpecified_def)
  then have sorts: "arraySort ?cmp xs = sort_key key xs"
    if "\<forall>a \<in> set xs. \<forall>b \<in> set xs. sgn (sortCompare ?cmp a b) = sgn (key a - key b)"
    for xs and key :: "email \<Rightarrow> int"
    using that by (elim allE impE) assumption
  from groupByThread_ok [OF ids] obtain st where st: "groupByThread [] emails = Inr st" by blast
  define groups where "groups = map (\<lambda>(k, es). (k, arraySort ?cmp es)) (ownPropertyOrder st)"
  have res: "organizeEmailsByThread arraySort parseDate emails = Inr groups"
    by (simp add: organizeEmailsByThread_def st groups_def)
  have keys: "map fst st = firstSeen (map threadId emails)"
    using groupByThread_keys [OF st] by simp
  have dst: "distinct (map fst st)" by (simp add: keys distinct_firstSeen)
  have vals: "map_of st k = (if k \<in> threadId ` set emails
                             then Some (filter (\<lambda>e. threadId e = k) emails) else None)" for k
    using groupByThread_values [OF st, of k] by simp
  have gk: "map fst groups = map fst (ownPropertyOrder st)"
    unfolding groups_def by (rule map_fst_sorted_groups)
  have d: "distinct (map fst groups)" using dst by (simp add: gk distinct_ownPropertyOrder)
  have "set (map fst groups) = fst ` set st" by (simp add: gk set_ownPropertyOrder)
  also have "\<dots> = set (map fst st)" by simp
  also have "\<dots> = threadId ` set emails" by (simp add: keys set_firstSeen)
  finally have s: "set (map fst groups) = threadId ` set emails" .
  have o: "map fst groups = firstSeen (map threadId emails)"
    if "\<forall>e \<in> set emails. \<not> isArrayIndex (threadId e)"
  proof -
    have "\<forall>kv \<in> set st. \<not> isArrayIndex (fst kv)"
    proof
      fix kv assume "kv \<in> set st"
      then have "fst kv \<in> set (map fst st)" by simp
      then have "fst kv \<in> threadId ` set emails" by (simp add: keys set_firstSeen)
      with that show "\<not> isArrayIndex (fst kv)" by auto
    qed
    then show ?thesis by (simp add: gk ownPropertyOrder_plain keys)
  qed
  have g: "mset es = mset (filter (\<lambda>e. threadId e = k) emails)
           \<and> ((\<forall>e \<in> set es. parseDate (date e) \<noteq> None) \<longrightarrow>
                 sorted (map ?key es)
                 \<and> (\<forall>d. filter (\<lambda>e. ?key e = d) es
                        = filter (\<lambda>e. ?key e = d) (filter (\<lambda>e. threadId e = k) emails)))
           \<and> ((\<forall>e \<in> set es. parseDate (date e) = None) \<longrightarrow>
                 es = filter (\<lambda>e. threadId e = k) emails)"
    if m: "(k, es) \<in> set groups" for k es
  proof -
    let ?v = "filter (\<lambda>e. threadId e = k) emails"
    from m obtain v where v: "(k, v) \<in> set st" and es: "es = arraySort ?cmp v"
      by (auto simp: groups_def set_ownPropertyOrder)
    from v dst have "map_of st k = Some v" by simp
    with vals [of k] have vv: "v = ?v" by (simp split: if_splits)
    have ms: "mset es = mset ?v" by (simp add: es vv perm)
    then have se: "set es = set ?v" by (metis set_mset_mset)
    have valid: "sorted (map ?key es)
                 \<and> (\<forall>d. filter (\<lambda>e. ?key e = d) es = filter (\<lambda>e. ?key e = d) ?v)"
      if "\<forall>e \<in> set es. parseDate (date e) \<noteq> None"
    proof -
      have "\<forall>a \<in> set ?v. \<forall>b \<in> set ?v. sgn (sortCompare ?cmp a b) = sgn (?key a - ?key b)"
        using that se by (auto simp: sortCompare_def compareDates_def split: option.splits)
      then have "arraySort ?cmp ?v = sort_key ?key ?v" by (rule sorts)
      then have "es = sort_key ?key ?v" by (simp add: es vv)
      then show ?thesis by (simp add: sort_key_stable)
    qed
    have invalid: "es = ?v" if "\<forall>e \<in> set es. parseDate (date e) = None"
    proof -
      have "\<forall>a \<in> set ?v. \<forall>b \<in> set ?v. sgn (sortCompare ?cmp a b) = sgn ((0::int) - 0)"
        using that se by (auto simp: sortCompare_def compareDates_def split: option.splits)
      then have "arraySort ?cmp ?v = sort_key (\<lambda>e. 0::int) ?v" by (rule sorts)
      then show ?thesis by (simp add: es vv sort_key_const)
    qed
    from ms valid invalid show ?thesis by blast
  qed
  from res d s o g show ?thesis by blast
qed

text \<open>The same on Node, at four records of two threads, all with valid dates.\<close>

lemma organizeEmailsByThread_groups_example:
  "organizeEmailsByThread (v8Sort mergeRuns) sampleParseDate
      [mail ''m1'' ''18c2f0'' ''2021'', mail ''m2'' ''18c2ee'' ''2019'',
       mail ''m3'' ''18c2f0'' ''2020'', mail ''m4'' ''18c2f0'' ''2020'']
     = Inr [(js ''18c2f0'', [mail ''m3'' ''18c2f0'' ''2020'', mail ''m4'' ''18c2f0'' ''2020'',
                             mail ''m1'' ''18c2f0'' ''2021'']),
            (js ''18c2ee'', [mail ''m2'' ''18c2ee'' ''2019''])]"
  by (simp add: ev4)

subsection \<open>A record without a valid date\<close>

text \<open>
  C4. The claim is what the function's own documentation says (\<open>sorting them
  chronologically\<close>, \<open>oldest first\<close>), and the function does not do it when a record of a
  thread has no valid date, as a message without a \<open>Date\<close> header has, whose date is the
  empty string. The comparator then returns NaN whenever that record is compared; nothing
  in it treats such a record as the lowest value. On Node, three records of one thread
  with the dates 2020, none, 2019 come back as they were: the record of 2020 before the
  record of 2019, the record without date between them. With the dates 2020, 2019, none,
  2018 the three dated records happen to come out in order and the record without date
  last. The sort does not throw.
\<close>

theorem organizeEmailsByThread_invalid_date:
  "map sampleParseDate
      (map date [mail ''m1'' ''18c2f0'' ''2020'', mail ''m2'' ''18c2f0'' '''',
                 mail ''m3'' ''18c2f0'' ''2019''])
     = [Some 2020, None, Some 2019]
   \<and> organizeEmailsByThread (v8Sort mergeRuns) sampleParseDate
        [mail ''m1'' ''18c2f0'' ''2020'', mail ''m2'' ''18c2f0'' '''', mail ''m3'' ''18c2f0'' ''2019'']
      = Inr [(js ''18c2f0'', [mail ''m1'' ''18c2f0'' ''2020'', mail ''m2'' ''18c2f0'' '''',
                              mail ''m3'' ''18c2f0'' ''2019''])]
   \<and> organizeEmailsByThread (v8Sort mergeRuns) sampleParseDate
        [mail ''m1'' ''18c2f0'' ''2020'', mail ''m2'' ''18c2f0'' ''2019'',
         mail ''m3'' ''18c2f0'' '''', mail ''m4'' ''18c2f0'' ''2018'']
      = Inr [(js ''18c2f0'', [mail ''m4'' ''18c2f0'' ''2018'', mail ''m2'' ''18c2f0'' ''2019'',
                              mail ''m1'' ''18c2f0'' ''2020'', mail ''m3'' ''18c2f0'' ''''])]"
  by (simp add: ev4)

subsection \<open>Thread identifiers that are property names of another kind\<close>

text \<open>
  Identifiers that the mail API does not produce: among array indices the order of the
  groups is numeric, not first-seen (\<open>3\<close> is enumerated before \<open>7\<close>, which was seen first),
  and an identifier that an empty object inherits makes the function throw.
\<close>

lemma organizeEmailsByThread_array_index:
  "map_sum id (map fst) (organizeEmailsByThread (v8Sort mergeRuns) sampleParseDate
        [mail ''m1'' ''7'' ''2020'', mail ''m2'' ''3'' ''2021'', mail ''m3'' ''7'' ''2021''])
      = Inr [js ''3'', js ''7'']"
  by (simp add: ev4)

lemma organizeEmailsByThread_inherited_key:
  "organizeEmailsByThread arraySort parseDate [mail ''m1'' ''constructor'' ''2020''] = Inl TypeError"
  by (simp add: ev4)

end
